theory Spec2Isabelle
  imports Main "HOL-Library.Word"
begin

unbundle bit_operations_syntax

section \<open>Data model of HybridHashTable\<close>

text \<open>
  The embedding follows \<^verbatim>\<open>include/HybridHashTable.hpp\<close> and
  \<^verbatim>\<open>src/HybridHashTable.cpp\<close> for the instantiation
  \<^verbatim>\<open>HybridHashTable<std::string, int>\<close>: keys are strings (the sentinel
  \<^verbatim>\<open>TOMBSTONE\<close> is a \<^verbatim>\<open>std::string\<close>, so the key type has to be one),
  values are integers and \<^verbatim>\<open>Value{}\<close> is \<open>0\<close>.

  \<^item> Identifiers cannot end in an underscore here, so the member \<^verbatim>\<open>table_\<close> is the
    field \<open>table\<close>, \<^verbatim>\<open>capacity_\<close> is \<open>capacity\<close>, and so on.
  \<^item> \<^verbatim>\<open>size_t\<close> counters (\<^verbatim>\<open>numElements_\<close>, the metrics, the recorded probe
    distances) are 64-bit words, so \<open>+ 1\<close> and \<open>- 1\<close> wrap as in the code.
  \<^item> Indices and \<^verbatim>\<open>capacity_\<close> are natural numbers; the one place where an index
    computation can overflow (\<^verbatim>\<open>capacity_ *= 2\<close>) has the wrap written out.
  \<^item> \<^verbatim>\<open>std::hash<std::string>\<close> is implementation-defined and not part of the
    repository: every operation takes it as the parameter \<open>H\<close>.
  \<^item> \<^verbatim>\<open>maxLoadFactor_\<close> (a double that is stored and never read) is left out.
  \<^item> \<^verbatim>\<open>mutex_\<close> is free between public calls. The public operations are
    modelled with their outcome as a sum: \<open>Inl\<close> is a fault of the C++ program
    (a division by zero in \<^verbatim>\<open>% capacity_\<close>, locking the mutex the caller
    already owns, or the \<^verbatim>\<open>std::length_error\<close> of a vector asked for more than its
    \<^verbatim>\<open>max_size()\<close> in the constructor), \<open>Inr\<close> the normal return. Below
    \<^verbatim>\<open>max_size()\<close> memory allocation is taken to succeed.
\<close>

type_synonym key = string
type_synonym val = int
type_synonym slot = "(key \<times> val) option"

datatype HashMode = Cuckoo | Hopscotch | RobinHood

datatype fault = DivisionByZero | RelockOwnedMutex | LengthError

definition TOMBSTONE :: key where
  "TOMBSTONE = ''__TOMBSTONE__''"

definition MAX_EVICTIONS :: nat where "MAX_EVICTIONS = 500"
definition HOP_RANGE :: nat where "HOP_RANGE = 32"
definition MAX_DISPLACEMENTS :: nat where "MAX_DISPLACEMENTS = 500"
definition MAX_PROBE_DISTANCE :: nat where "MAX_PROBE_DISTANCE = 500"
definition MAX_STASH_SIZE :: nat where "MAX_STASH_SIZE = 10000000"

record HybridHashTable =
  table :: "slot list"
  capacity :: nat
  numElements :: "64 word"
  currentMode :: HashMode
  table2 :: "slot list"
  hopInfo :: "32 word list"
  probeDistances :: "64 word list"
  stash :: "(key \<times> val) list"
  totalInsertions :: "64 word"
  totalCollisions :: "64 word"
  totalProbes :: "64 word"

section \<open>Hash functions (HashFunctions.hpp)\<close>

definition HashUtils_hash1 :: "(key \<Rightarrow> 64 word) \<Rightarrow> key \<Rightarrow> 64 word" where
  "HashUtils_hash1 H k = H k"

definition HashUtils_hash2 :: "(key \<Rightarrow> 64 word) \<Rightarrow> key \<Rightarrow> 64 word" where
  "HashUtils_hash2 H k = (let h = H k in (h XOR 0x9e3779b9) + push_bit 6 h + drop_bit 2 h)"

definition HashUtils_hash :: "(key \<Rightarrow> 64 word) \<Rightarrow> key \<Rightarrow> 64 word" where
  "HashUtils_hash H k = H k"

section \<open>Inline helpers of the class\<close>

definition hash :: "(key \<Rightarrow> 64 word) \<Rightarrow> HybridHashTable \<Rightarrow> key \<Rightarrow> nat" where
  "hash H s k = unat (HashUtils_hash H k) mod capacity s"

definition hash1 :: "(key \<Rightarrow> 64 word) \<Rightarrow> HybridHashTable \<Rightarrow> key \<Rightarrow> nat" where
  "hash1 H s k = unat (HashUtils_hash1 H k) mod capacity s"

definition hash2 :: "(key \<Rightarrow> 64 word) \<Rightarrow> HybridHashTable \<Rightarrow> key \<Rightarrow> nat" where
  "hash2 H s k = unat (HashUtils_hash2 H k) mod capacity s"

definition isTombstone :: "slot \<Rightarrow> bool" where
  "isTombstone sl = (case sl of None \<Rightarrow> False | Some p \<Rightarrow> fst p = TOMBSTONE)"

text \<open>The test \<^verbatim>\<open>!table_[i] || isTombstone(table_[i])\<close> used by every placement loop.\<close>

definition available :: "slot \<Rightarrow> bool" where
  "available sl = (sl = None \<or> isTombstone sl)"

text \<open>The test \<^verbatim>\<open>slot && slot->first == key && !isTombstone(slot)\<close> used by searchInternal.\<close>

definition liveMatch :: "slot \<Rightarrow> key \<Rightarrow> bool" where
  "liveMatch sl k = (case sl of None \<Rightarrow> False | Some p \<Rightarrow> fst p = k \<and> \<not> isTombstone sl)"

definition getNeighborhoodStart :: "nat \<Rightarrow> nat" where
  "getNeighborhoodStart index = (index div HOP_RANGE) * HOP_RANGE"

definition getNeighborhoodEnd :: "HybridHashTable \<Rightarrow> nat \<Rightarrow> nat" where
  "getNeighborhoodEnd s index = min (getNeighborhoodStart index + HOP_RANGE) (capacity s)"

definition getProbeDistance :: "HybridHashTable \<Rightarrow> nat \<Rightarrow> nat \<Rightarrow> nat" where
  "getProbeDistance s idealIndex currentIndex =
     (if currentIndex \<ge> idealIndex then currentIndex - idealIndex
      else capacity s - idealIndex + currentIndex)"

section \<open>Construction\<close>

text \<open>
  The constructor initialises the members and then calls \<^verbatim>\<open>resize(capacity_, ...)\<close> on the
  four vectors, \<^verbatim>\<open>table_\<close> first. \<open>HybridHashTable_new initialSize\<close> is the object it leaves
  when these calls have returned.
\<close>

definition HybridHashTable_new :: "nat \<Rightarrow> HybridHashTable" where
  "HybridHashTable_new initialSize =
     \<lparr> table = replicate initialSize None,
       capacity = initialSize,
       numElements = 0,
       currentMode = Hopscotch,
       table2 = replicate initialSize None,
       hopInfo = replicate initialSize 0,
       probeDistances = replicate initialSize 0,
       stash = [],
       totalInsertions = 0,
       totalCollisions = 0,
       totalProbes = 0 \<rparr>"

text \<open>
  \<^verbatim>\<open>std::vector::resize\<close> throws \<^verbatim>\<open>std::length_error\<close> when asked for more than
  \<^verbatim>\<open>max_size()\<close> elements, and the exception leaves the constructor: no object is
  built. \<^verbatim>\<open>max_size()\<close> is implementation-defined and stands outside the repository; it
  is the parameter \<open>maxSize\<close> (for \<^verbatim>\<open>table_\<close>, whose elements are the largest, so that the
  first call decides). The standard libraries bound it by \<^verbatim>\<open>PTRDIFF_MAX\<close>, which is
  \<open>2^63 - 1\<close> where \<^verbatim>\<open>size_t\<close> has 64 bits; the bound is a hypothesis where it is used.
\<close>

definition HybridHashTable_ctor :: "nat \<Rightarrow> nat \<Rightarrow> fault + HybridHashTable" where
  "HybridHashTable_ctor maxSize initialSize =
     (if maxSize < initialSize then Inl LengthError
      else Inr (HybridHashTable_new initialSize))"

text \<open>
  The parameter \<^verbatim>\<open>initialSize\<close> is a \<^verbatim>\<open>size_t\<close>: a signed argument is converted
  modulo \<open>2^64\<close> at the call.
\<close>

definition size_t_of_int :: "int \<Rightarrow> nat" where
  "size_t_of_int i = nat (i mod 2 ^ 64)"

section \<open>Stash\<close>

fun searchStash_loop :: "(key \<times> val) list \<Rightarrow> key \<Rightarrow> val option" where
  "searchStash_loop [] k = None"
| "searchStash_loop (item # rest) k =
     (if fst item = k then Some (snd item) else searchStash_loop rest k)"

definition searchStash :: "HybridHashTable \<Rightarrow> key \<Rightarrow> val option" where
  "searchStash s k = searchStash_loop (stash s) k"

definition insertIntoStash :: "HybridHashTable \<Rightarrow> key \<Rightarrow> val \<Rightarrow> bool \<times> HybridHashTable" where
  "insertIntoStash s k v =
     (if length (stash s) \<ge> MAX_STASH_SIZE then (False, s)
      else (True, s\<lparr> stash := stash s @ [(k, v)], numElements := numElements s + 1 \<rparr>))"

text \<open>\<^verbatim>\<open>stash_.erase(it)\<close> at the first entry whose key matches; \<open>None\<close> when there is none.\<close>

fun eraseFirst :: "(key \<times> val) list \<Rightarrow> key \<Rightarrow> (key \<times> val) list option" where
  "eraseFirst [] k = None"
| "eraseFirst (item # rest) k =
     (if fst item = k then Some rest
      else (case eraseFirst rest k of None \<Rightarrow> None | Some rest' \<Rightarrow> Some (item # rest')))"

definition removeFromStash :: "HybridHashTable \<Rightarrow> key \<Rightarrow> bool \<times> HybridHashTable" where
  "removeFromStash s k =
     (case eraseFirst (stash s) k of
        None \<Rightarrow> (False, s)
      | Some st \<Rightarrow> (True, s\<lparr> stash := st, numElements := numElements s - 1 \<rparr>))"

section \<open>Hopscotch helpers\<close>

definition updateHopInfo :: "HybridHashTable \<Rightarrow> nat \<Rightarrow> nat \<Rightarrow> bool \<Rightarrow> HybridHashTable" where
  "updateHopInfo s baseIndex targetIndex add =
     (let start = getNeighborhoodStart baseIndex;
          bitPos = targetIndex - start;
          w = hopInfo s ! baseIndex
      in s\<lparr> hopInfo := (hopInfo s)[baseIndex :=
              (if add then w OR push_bit bitPos 1 else w AND NOT (push_bit bitPos 1))] \<rparr>)"

function findEmptySlot_loop :: "slot list \<Rightarrow> nat \<Rightarrow> nat \<Rightarrow> nat \<Rightarrow> nat" where
  "findEmptySlot_loop tbl cap i end =
     (if i < end then (if available (tbl ! i) then i else findEmptySlot_loop tbl cap (i + 1) end)
      else cap)"
  by pat_completeness auto
termination
  by (relation "measure (\<lambda>(tbl, cap, i, end). end - i)") auto

definition findEmptySlot :: "HybridHashTable \<Rightarrow> nat \<Rightarrow> nat \<Rightarrow> nat" where
  "findEmptySlot s start end = findEmptySlot_loop (table s) (capacity s) start end"

function displace_loop :: "(key \<Rightarrow> 64 word) \<Rightarrow> HybridHashTable \<Rightarrow> nat \<Rightarrow> nat \<Rightarrow> bool \<times> HybridHashTable" where
  "displace_loop H s index d =
     (if d \<le> MAX_DISPLACEMENTS then
        (let checkIndex = (index + d) mod capacity s in
         if table s ! checkIndex \<noteq> None \<and> \<not> isTombstone (table s ! checkIndex) then
           (let targetBase = hash H s (fst (the (table s ! checkIndex)));
                targetStart = getNeighborhoodStart targetBase;
                targetEnd = getNeighborhoodEnd s targetBase
            in if checkIndex \<ge> targetStart \<and> checkIndex < targetEnd then
                 (let emptyIndex = findEmptySlot s targetStart targetEnd in
                  if emptyIndex \<noteq> capacity s then
                    (let s1 = s\<lparr> table := (table s)[emptyIndex := table s ! checkIndex] \<rparr>;
                         s2 = s1\<lparr> table := (table s1)[checkIndex := None] \<rparr>;
                         s3 = updateHopInfo s2 targetBase checkIndex False;
                         s4 = updateHopInfo s3 targetBase emptyIndex True
                     in (True, s4))
                  else displace_loop H s index (d + 1))
               else displace_loop H s index (d + 1))
         else displace_loop H s index (d + 1))
      else (False, s))"
  by pat_completeness auto
termination
  by (relation "measure (\<lambda>(H, s, index, d). Suc MAX_DISPLACEMENTS - d)") auto

definition displace :: "(key \<Rightarrow> 64 word) \<Rightarrow> HybridHashTable \<Rightarrow> nat \<Rightarrow> bool \<times> HybridHashTable" where
  "displace H s index = displace_loop H s index 1"

section \<open>Lookup\<close>

function hopscotch_scan :: "slot list \<Rightarrow> 32 word \<Rightarrow> nat \<Rightarrow> nat \<Rightarrow> key \<Rightarrow> nat \<Rightarrow> val option" where
  "hopscotch_scan tbl hopBitmap start end k i =
     (if i < HOP_RANGE \<and> start + i < end then
        (if hopBitmap AND push_bit i 1 \<noteq> 0 \<and> liveMatch (tbl ! (start + i)) k
         then Some (snd (the (tbl ! (start + i))))
         else hopscotch_scan tbl hopBitmap start end k (i + 1))
      else None)"
  by pat_completeness auto
termination
  by (relation "measure (\<lambda>(tbl, hopBitmap, start, end, k, i). HOP_RANGE - i)") auto

function robinhood_scan :: "slot list \<Rightarrow> nat \<Rightarrow> nat \<Rightarrow> key \<Rightarrow> nat \<Rightarrow> val option" where
  "robinhood_scan tbl cap index k probe =
     (if probe < MAX_PROBE_DISTANCE then
        (let currentIndex = (index + probe) mod cap in
         if tbl ! currentIndex = None then None
         else if liveMatch (tbl ! currentIndex) k then Some (snd (the (tbl ! currentIndex)))
         else robinhood_scan tbl cap index k (probe + 1))
      else None)"
  by pat_completeness auto
termination
  by (relation "measure (\<lambda>(tbl, cap, index, k, probe). MAX_PROBE_DISTANCE - probe)") auto

text \<open>
  \<open>tableLookup\<close> is the part of \<^verbatim>\<open>searchInternal\<close> before \<^verbatim>\<open>return searchStash(key)\<close>:
  the lookup of the active mode in the indexed arrays.
\<close>

definition tableLookup :: "(key \<Rightarrow> 64 word) \<Rightarrow> HybridHashTable \<Rightarrow> key \<Rightarrow> val option" where
  "tableLookup H s k =
     (case currentMode s of
        Cuckoo \<Rightarrow>
          (let idx1 = hash1 H s k in
           if liveMatch (table s ! idx1) k then Some (snd (the (table s ! idx1)))
           else (let idx2 = hash2 H s k in
                 if liveMatch (table2 s ! idx2) k then Some (snd (the (table2 s ! idx2)))
                 else None))
      | Hopscotch \<Rightarrow>
          (let baseIndex = hash H s k;
               start = getNeighborhoodStart baseIndex;
               end = getNeighborhoodEnd s baseIndex;
               hopBitmap = hopInfo s ! baseIndex
           in hopscotch_scan (table s) hopBitmap start end k 0)
      | RobinHood \<Rightarrow> robinhood_scan (table s) (capacity s) (hash H s k) k 0)"

definition searchInternal :: "(key \<Rightarrow> 64 word) \<Rightarrow> HybridHashTable \<Rightarrow> key \<Rightarrow> val option" where
  "searchInternal H s k =
     (case tableLookup H s k of Some v \<Rightarrow> Some v | None \<Rightarrow> searchStash s k)"

definition search :: "(key \<Rightarrow> 64 word) \<Rightarrow> key \<Rightarrow> HybridHashTable \<Rightarrow> fault + val option" where
  "search H k s = (if capacity s = 0 then Inl DivisionByZero else Inr (searchInternal H s k))"

definition size_ht :: "HybridHashTable \<Rightarrow> 64 word" where
  "size_ht s = numElements s"

section \<open>Insertion\<close>

definition hopscotch_place :: "HybridHashTable \<Rightarrow> nat \<Rightarrow> nat \<Rightarrow> key \<Rightarrow> val \<Rightarrow> HybridHashTable" where
  "hopscotch_place s baseIndex emptyIndex k v =
     (let s1 = s\<lparr> table := (table s)[emptyIndex := Some (k, v)] \<rparr>;
          s2 = updateHopInfo s1 baseIndex emptyIndex True
      in s2\<lparr> numElements := numElements s2 + 1 \<rparr>)"

definition hopscotch_insert :: "(key \<Rightarrow> 64 word) \<Rightarrow> HybridHashTable \<Rightarrow> key \<Rightarrow> val \<Rightarrow> bool \<times> HybridHashTable" where
  "hopscotch_insert H s k v =
     (let baseIndex = hash H s k;
          start = getNeighborhoodStart baseIndex;
          end = getNeighborhoodEnd s baseIndex;
          emptyIndex = findEmptySlot s start end
      in if emptyIndex \<noteq> capacity s then (True, hopscotch_place s baseIndex emptyIndex k v)
         else (case displace H s baseIndex of
                 (True, sd) \<Rightarrow>
                   (let newEmptyIndex = findEmptySlot sd start end in
                    if newEmptyIndex \<noteq> capacity sd
                    then (True, hopscotch_place sd baseIndex newEmptyIndex k v)
                    else (False, sd))
               | (False, sd) \<Rightarrow> (False, sd\<lparr> totalCollisions := totalCollisions sd + 1 \<rparr>)))"

function robinhood_insert_loop ::
  "HybridHashTable \<Rightarrow> key \<times> val \<Rightarrow> nat \<Rightarrow> 64 word \<Rightarrow> nat \<Rightarrow> bool \<times> HybridHashTable" where
  "robinhood_insert_loop s item idealIndex currentDistance probe =
     (if probe < MAX_PROBE_DISTANCE then
        (let s1 = s\<lparr> totalProbes := totalProbes s + 1 \<rparr>;
             currentIndex = (idealIndex + probe) mod capacity s1
         in if available (table s1 ! currentIndex) then
              (True, s1\<lparr> table := (table s1)[currentIndex := Some item],
                         probeDistances := (probeDistances s1)[currentIndex := currentDistance],
                         numElements := numElements s1 + 1 \<rparr>)
            else
              (let existingDistance = probeDistances s1 ! currentIndex in
               if currentDistance > existingDistance then
                 robinhood_insert_loop
                   (s1\<lparr> table := (table s1)[currentIndex := Some item],
                        probeDistances := (probeDistances s1)[currentIndex := currentDistance] \<rparr>)
                   (the (table s1 ! currentIndex)) idealIndex (existingDistance + 1) (probe + 1)
               else
                 robinhood_insert_loop (s1\<lparr> totalCollisions := totalCollisions s1 + 1 \<rparr>)
                   item idealIndex (currentDistance + 1) (probe + 1)))
      else (False, s))"
  by pat_completeness auto
termination
  by (relation "measure (\<lambda>(s, item, idealIndex, currentDistance, probe). MAX_PROBE_DISTANCE - probe)") auto

definition robinhood_insert :: "(key \<Rightarrow> 64 word) \<Rightarrow> HybridHashTable \<Rightarrow> key \<Rightarrow> val \<Rightarrow> bool \<times> HybridHashTable" where
  "robinhood_insert H s k v = robinhood_insert_loop s (k, v) (hash H s k) 0 0"

text \<open>
  One pass of the \<^verbatim>\<open>while (evictions < MAX_EVICTIONS)\<close> loop either places the item in
  hand or swaps twice; \<^verbatim>\<open>evictions\<close> is tested at the head of the loop only.
\<close>

function cuckoo_insert_loop ::
  "(key \<Rightarrow> 64 word) \<Rightarrow> HybridHashTable \<Rightarrow> key \<times> val \<Rightarrow> nat \<Rightarrow> bool \<times> HybridHashTable" where
  "cuckoo_insert_loop H s item evictions =
     (if evictions < MAX_EVICTIONS then
        (let idx1 = hash1 H s (fst item) in
         if available (table s ! idx1) then
           (True, s\<lparr> table := (table s)[idx1 := Some item], numElements := numElements s + 1 \<rparr>)
         else
           (let item1 = the (table s ! idx1);
                s1 = s\<lparr> table := (table s)[idx1 := Some item] \<rparr>;
                idx2 = hash2 H s1 (fst item1)
            in if available (table2 s1 ! idx2) then
                 (True, s1\<lparr> table2 := (table2 s1)[idx2 := Some item1],
                            numElements := numElements s1 + 1 \<rparr>)
               else
                 (let item2 = the (table2 s1 ! idx2);
                      s2 = s1\<lparr> table2 := (table2 s1)[idx2 := Some item1] \<rparr>
                  in cuckoo_insert_loop H (s2\<lparr> totalCollisions := totalCollisions s2 + 1 \<rparr>)
                       item2 (evictions + 1 + 1))))
      else (False, s))"
  by pat_completeness auto
termination
  by (relation "measure (\<lambda>(H, s, item, evictions). MAX_EVICTIONS - evictions)") auto

definition cuckoo_insert :: "(key \<Rightarrow> 64 word) \<Rightarrow> HybridHashTable \<Rightarrow> key \<Rightarrow> val \<Rightarrow> bool \<times> HybridHashTable" where
  "cuckoo_insert H s k v = cuckoo_insert_loop H s (k, v) 0"

text \<open>
  \<open>modeInsert\<close> is the mode dispatch of \<^verbatim>\<open>insert\<close>: it returns the flag
  \<^verbatim>\<open>success\<close> as it stands before \<^verbatim>\<open>if (!success)\<close>, and the state.
\<close>

definition modeInsert :: "(key \<Rightarrow> 64 word) \<Rightarrow> HybridHashTable \<Rightarrow> key \<Rightarrow> val \<Rightarrow> bool \<times> HybridHashTable" where
  "modeInsert H s k v =
     (case currentMode s of
        Hopscotch \<Rightarrow> hopscotch_insert H s k v
      | RobinHood \<Rightarrow> robinhood_insert H s k v
      | Cuckoo \<Rightarrow> cuckoo_insert H s k v)"

text \<open>
  The body of \<^verbatim>\<open>insert\<close> after the lock is taken. The local \<^verbatim>\<open>currentLoad\<close> is
  computed and never used (the call of \<^verbatim>\<open>switchModeIfNeeded\<close> is commented out).
\<close>

definition insert_body :: "(key \<Rightarrow> 64 word) \<Rightarrow> key \<Rightarrow> val \<Rightarrow> HybridHashTable \<Rightarrow> bool \<times> HybridHashTable" where
  "insert_body H k v s =
     (if searchInternal H s k \<noteq> None then (False, s)
      else
        (let s0 = s\<lparr> totalInsertions := totalInsertions s + 1 \<rparr> in
         case modeInsert H s0 k v of
           (True, s1) \<Rightarrow> (True, s1)
         | (False, s1) \<Rightarrow> insertIntoStash s1 k v))"

definition insert_ht :: "(key \<Rightarrow> 64 word) \<Rightarrow> key \<Rightarrow> val \<Rightarrow> HybridHashTable \<Rightarrow> fault + bool \<times> HybridHashTable" where
  "insert_ht H k v s = (if capacity s = 0 then Inl DivisionByZero else Inr (insert_body H k v s))"

section \<open>Removal\<close>

function backwardShift_loop ::
  "(key \<Rightarrow> 64 word) \<Rightarrow> HybridHashTable \<Rightarrow> nat \<Rightarrow> nat \<Rightarrow> nat \<Rightarrow> HybridHashTable" where
  "backwardShift_loop H s startIndex currentIndex probe =
     (if probe < capacity s then
        (let nextIndex = (startIndex + probe) mod capacity s in
         if available (table s ! nextIndex) then s
         else
           (let nextIdeal = hash H s (fst (the (table s ! nextIndex)));
                nextDistance = getProbeDistance s nextIdeal nextIndex
            in if nextDistance = 0 then s
               else
                 (let t1 = (table s)[currentIndex := table s ! nextIndex];
                      p1 = (probeDistances s)[currentIndex := word_of_nat (nextDistance - 1)];
                      t2 = t1[nextIndex := None];
                      p2 = p1[nextIndex := 0]
                  in backwardShift_loop H (s\<lparr> table := t2, probeDistances := p2 \<rparr>)
                       startIndex nextIndex (probe + 1))))
      else s)"
  by pat_completeness auto
termination
  by (relation "measure (\<lambda>(H, s, startIndex, currentIndex, probe). capacity s - probe)") auto

definition backwardShift :: "(key \<Rightarrow> 64 word) \<Rightarrow> HybridHashTable \<Rightarrow> nat \<Rightarrow> HybridHashTable" where
  "backwardShift H s startIndex = backwardShift_loop H s startIndex startIndex 1"

text \<open>
  The scan of \<^verbatim>\<open>remove\<close> in Hopscotch mode: the first index with its bit set whose slot holds
  the key (a tombstone is not excluded here, unlike in \<^verbatim>\<open>searchInternal\<close>).
\<close>

function hopscotch_find :: "slot list \<Rightarrow> 32 word \<Rightarrow> nat \<Rightarrow> nat \<Rightarrow> key \<Rightarrow> nat \<Rightarrow> nat option" where
  "hopscotch_find tbl hopBitmap start end k i =
     (if i < HOP_RANGE \<and> start + i < end then
        (if hopBitmap AND push_bit i 1 \<noteq> 0 \<and> tbl ! (start + i) \<noteq> None
              \<and> fst (the (tbl ! (start + i))) = k
         then Some (start + i)
         else hopscotch_find tbl hopBitmap start end k (i + 1))
      else None)"
  by pat_completeness auto
termination
  by (relation "measure (\<lambda>(tbl, hopBitmap, start, end, k, i). HOP_RANGE - i)") auto

text \<open>The scan of \<^verbatim>\<open>remove\<close> in Robin Hood mode: the index of the first live match.\<close>

function robinhood_find :: "slot list \<Rightarrow> nat \<Rightarrow> nat \<Rightarrow> key \<Rightarrow> nat \<Rightarrow> nat option" where
  "robinhood_find tbl cap index k probe =
     (if probe < MAX_PROBE_DISTANCE then
        (let currentIndex = (index + probe) mod cap in
         if tbl ! currentIndex = None then None
         else if liveMatch (tbl ! currentIndex) k then Some currentIndex
         else robinhood_find tbl cap index k (probe + 1))
      else None)"
  by pat_completeness auto
termination
  by (relation "measure (\<lambda>(tbl, cap, index, k, probe). MAX_PROBE_DISTANCE - probe)") auto

definition remove_body :: "(key \<Rightarrow> 64 word) \<Rightarrow> key \<Rightarrow> HybridHashTable \<Rightarrow> bool \<times> HybridHashTable" where
  "remove_body H k s =
     (case currentMode s of
        Cuckoo \<Rightarrow>
          (let idx1 = hash1 H s k in
           if table s ! idx1 \<noteq> None \<and> fst (the (table s ! idx1)) = k then
             (True, s\<lparr> table := (table s)[idx1 := Some (TOMBSTONE, 0)],
                        numElements := numElements s - 1 \<rparr>)
           else
             (let idx2 = hash2 H s k in
              if table2 s ! idx2 \<noteq> None \<and> fst (the (table2 s ! idx2)) = k then
                (True, s\<lparr> table2 := (table2 s)[idx2 := Some (TOMBSTONE, 0)],
                           numElements := numElements s - 1 \<rparr>)
              else removeFromStash s k))
      | Hopscotch \<Rightarrow>
          (let baseIndex = hash H s k;
               start = getNeighborhoodStart baseIndex;
               end = getNeighborhoodEnd s baseIndex;
               hopBitmap = hopInfo s ! baseIndex
           in case hopscotch_find (table s) hopBitmap start end k 0 of
                Some checkIndex \<Rightarrow>
                  (let s1 = s\<lparr> table := (table s)[checkIndex := Some (TOMBSTONE, 0)] \<rparr>;
                       s2 = updateHopInfo s1 baseIndex checkIndex False
                   in (True, s2\<lparr> numElements := numElements s2 - 1 \<rparr>))
              | None \<Rightarrow> removeFromStash s k)
      | RobinHood \<Rightarrow>
          (case robinhood_find (table s) (capacity s) (hash H s k) k 0 of
             Some currentIndex \<Rightarrow>
               (let s1 = s\<lparr> table := (table s)[currentIndex := Some (TOMBSTONE, 0)],
                            probeDistances := (probeDistances s)[currentIndex := 0],
                            numElements := numElements s - 1 \<rparr>
                in (True, backwardShift H s1 currentIndex))
           | None \<Rightarrow> removeFromStash s k))"

definition remove_ht :: "(key \<Rightarrow> 64 word) \<Rightarrow> key \<Rightarrow> HybridHashTable \<Rightarrow> fault + bool \<times> HybridHashTable" where
  "remove_ht H k s = (if capacity s = 0 then Inl DivisionByZero else Inr (remove_body H k s))"

section \<open>Mode change and growth\<close>

definition setMode :: "HashMode \<Rightarrow> HybridHashTable \<Rightarrow> HybridHashTable" where
  "setMode mode s =
     s\<lparr> currentMode := mode,
        table := replicate (capacity s) None,
        table2 := replicate (capacity s) None,
        hopInfo := replicate (capacity s) 0,
        probeDistances := replicate (capacity s) 0,
        stash := [],
        numElements := 0 \<rparr>"

text \<open>The elements \<^verbatim>\<open>rehash\<close> collects: the live slots of \<^verbatim>\<open>table_\<close>, then the stash.\<close>

definition allElements :: "HybridHashTable \<Rightarrow> (key \<times> val) list" where
  "allElements s =
     map the (filter (\<lambda>sl. sl \<noteq> None \<and> \<not> isTombstone sl) (table s)) @ stash s"

text \<open>
  \<^verbatim>\<open>rehash\<close> runs with the exclusive lock of \<^verbatim>\<open>resize\<close> held and re-inserts through the
  public \<^verbatim>\<open>insert\<close>, whose first statement locks \<^verbatim>\<open>mutex_\<close> again: with at least one
  element to re-insert the call does not return normally. The four \<^verbatim>\<open>assign\<close> calls are
  taken to return; what is proved of \<open>resize\<close> below is about the calls that return.
\<close>

definition rehash :: "HybridHashTable \<Rightarrow> fault + HybridHashTable" where
  "rehash s =
     (let elems = allElements s;
          cap = (capacity s * 2) mod 2 ^ 64;
          s1 = s\<lparr> capacity := cap,
                  table := replicate cap None,
                  table2 := replicate cap None,
                  hopInfo := replicate cap 0,
                  probeDistances := replicate cap 0,
                  stash := [],
                  numElements := 0 \<rparr>
      in if elems = [] then Inr s1 else Inl RelockOwnedMutex)"

definition resize :: "nat \<Rightarrow> HybridHashTable \<Rightarrow> fault + HybridHashTable" where
  "resize newSize s = rehash (s\<lparr> capacity := newSize \<rparr>)"

section \<open>Sequences of public operations\<close>

datatype operation = Insert key val | Remove key | Search key | Resize nat | SetMode HashMode

definition step :: "(key \<Rightarrow> 64 word) \<Rightarrow> operation \<Rightarrow> HybridHashTable \<Rightarrow> fault + HybridHashTable" where
  "step H opn s =
     (case opn of
        Insert k v \<Rightarrow> (case insert_ht H k v s of Inl f \<Rightarrow> Inl f | Inr r \<Rightarrow> Inr (snd r))
      | Remove k \<Rightarrow> (case remove_ht H k s of Inl f \<Rightarrow> Inl f | Inr r \<Rightarrow> Inr (snd r))
      | Search k \<Rightarrow> (case search H k s of Inl f \<Rightarrow> Inl f | Inr r \<Rightarrow> Inr s)
      | Resize n \<Rightarrow> resize n s
      | SetMode m \<Rightarrow> Inr (setMode m s))"

fun run :: "(key \<Rightarrow> 64 word) \<Rightarrow> operation list \<Rightarrow> HybridHashTable \<Rightarrow> fault + HybridHashTable" where
  "run H [] s = Inr s"
| "run H (opn # ops) s = (case step H opn s of Inl f \<Rightarrow> Inl f | Inr s' \<Rightarrow> run H ops s')"

text \<open>The live entries: the slots of both tables that are neither empty nor tombstones, and the stash.\<close>

definition liveSlots :: "slot list \<Rightarrow> (key \<times> val) list" where
  "liveSlots tbl = map the (filter (\<lambda>sl. sl \<noteq> None \<and> \<not> isTombstone sl) tbl)"

definition liveEntries :: "HybridHashTable \<Rightarrow> (key \<times> val) list" where
  "liveEntries s = liveSlots (table s) @ liveSlots (table2 s) @ stash s"

definition liveCount :: "HybridHashTable \<Rightarrow> key \<Rightarrow> nat" where
  "liveCount s k = length (filter (\<lambda>e. fst e = k) (liveEntries s))"


text \<open>
  \<^verbatim>\<open>std::hash\<close> stands outside the repository. Concrete evaluations below take the
  length of the key for it; those on a table of capacity 1 do not depend on the
  choice, since every index is then \<open>0\<close>.
\<close>

definition lengthHash :: "key \<Rightarrow> 64 word" where
  "lengthHash k = word_of_nat (length k)"

text \<open>
  An input that fills the stash: \<open>setMode Cuckoo\<close> and the inserts of the keys
  \<^verbatim>\<open>x\<close>, \<^verbatim>\<open>xx\<close>, \<^verbatim>\<open>xxx\<close>, ... with the values 0, 1, 2, ..., and the table it leads to
  from a fresh table of capacity 1.
\<close>

definition stashKey :: "nat \<Rightarrow> key" where
  "stashKey i = replicate (Suc i) CHR ''x''"

definition fillOps :: "nat \<Rightarrow> operation list" where
  "fillOps n = SetMode Cuckoo # map (\<lambda>i. Insert (stashKey i) (int i)) [0..<n]"

definition filledState :: "nat \<Rightarrow> HybridHashTable" where
  "filledState n =
     \<lparr> table = [Some (stashKey (n - 1), int (n - 1))], capacity = 1, numElements = of_nat n,
       currentMode = Cuckoo, table2 = [Some (stashKey (n - 2), int (n - 2))], hopInfo = [0],
       probeDistances = [0], stash = map (\<lambda>i. (stashKey i, int i)) [2..<n],
       totalInsertions = of_nat n, totalCollisions = 250 * of_nat (n - 2), totalProbes = 0 \<rparr>"

section \<open>State invariant and proof vocabulary\<close>

text \<open>
  Between public calls all four arrays have \<^verbatim>\<open>capacity_\<close> entries, and in Cuckoo mode
  every entry that is not a tombstone sits at the index its own hash gives: the
  primary table is indexed by \<open>hash1\<close>, the secondary one by \<open>hash2\<close>.
\<close>

definition wellFormed :: "HybridHashTable \<Rightarrow> bool" where
  "wellFormed s =
     (length (table s) = capacity s \<and> length (table2 s) = capacity s \<and>
      length (hopInfo s) = capacity s \<and> length (probeDistances s) = capacity s)"

definition placedSlot :: "slot \<Rightarrow> nat \<Rightarrow> (key \<Rightarrow> nat) \<Rightarrow> bool" where
  "placedSlot sl i h = (case sl of None \<Rightarrow> True | Some p \<Rightarrow> fst p = TOMBSTONE \<or> h (fst p) = i)"

definition cuckooPlaced :: "(key \<Rightarrow> 64 word) \<Rightarrow> HybridHashTable \<Rightarrow> bool" where
  "cuckooPlaced H s =
     (\<forall>i<capacity s. placedSlot (table s ! i) i (hash1 H s) \<and> placedSlot (table2 s ! i) i (hash2 H s))"

definition invariant :: "(key \<Rightarrow> 64 word) \<Rightarrow> HybridHashTable \<Rightarrow> bool" where
  "invariant H s = (wellFormed s \<and> (currentMode s = Cuckoo \<longrightarrow> cuckooPlaced H s))"

text \<open>
  \<open>placedByMode\<close>: the placement of the active mode succeeds, that is, \<^verbatim>\<open>success\<close> is
  true when \<^verbatim>\<open>insert\<close> reaches \<^verbatim>\<open>if (!success)\<close>.
\<close>

definition placedByMode :: "(key \<Rightarrow> 64 word) \<Rightarrow> HybridHashTable \<Rightarrow> key \<Rightarrow> val \<Rightarrow> bool" where
  "placedByMode H s k v = fst (modeInsert H (s\<lparr> totalInsertions := totalInsertions s + 1 \<rparr>) k v)"

text \<open>What a placement loop leaves alone.\<close>

definition frame :: "HybridHashTable \<Rightarrow> HybridHashTable \<Rightarrow> bool" where
  "frame s s' =
     (capacity s' = capacity s \<and> stash s' = stash s \<and> currentMode s' = currentMode s \<and>
      length (table s') = length (table s) \<and> length (table2 s') = length (table2 s) \<and>
      length (hopInfo s') = length (hopInfo s) \<and>
      length (probeDistances s') = length (probeDistances s) \<and>
      totalInsertions s' = totalInsertions s)"

text \<open>
  The lookup \<open>r\<close> of the inserted key after the placement loop of a mode: the value \<open>v\<close>
  when the loop reported success, and never another value.
\<close>

definition scanOk :: "key \<Rightarrow> val \<Rightarrow> bool \<Rightarrow> val option \<Rightarrow> bool" where
  "scanOk k v b r = ((b \<longrightarrow> r = Some v) \<and> (r = None \<or> r = Some v))"

definition holds :: "slot \<Rightarrow> key \<Rightarrow> val \<Rightarrow> bool" where
  "holds sl k v = (sl = Some (k, v))"

text \<open>Cuckoo: the key \<open>k\<close> occurs in a table at the index \<open>h\<close> only, and with the value \<open>v\<close>.\<close>

definition keyOnlyAt :: "slot list \<Rightarrow> nat \<Rightarrow> key \<Rightarrow> val \<Rightarrow> bool" where
  "keyOnlyAt tbl h k v = (\<forall>i<length tbl. \<forall>w. tbl ! i = Some (k, w) \<longrightarrow> i = h \<and> w = v)"

text \<open>
  Cuckoo: the invariant of the eviction loop started on state \<open>s\<close> with \<open>(k, v)\<close>. The
  pair is the item in hand or sits at one of its two positions.
\<close>

definition cuckooInv :: "(key \<Rightarrow> 64 word) \<Rightarrow> key \<Rightarrow> val \<Rightarrow> HybridHashTable \<Rightarrow> HybridHashTable \<Rightarrow> key \<times> val \<Rightarrow> bool" where
  "cuckooInv H k v s s0 item =
     (capacity s0 = capacity s \<and> stash s0 = stash s \<and> currentMode s0 = currentMode s \<and>
      length (table s0) = capacity s \<and> length (table2 s0) = capacity s \<and>
      keyOnlyAt (table s0) (hash1 H s k) k v \<and> keyOnlyAt (table2 s0) (hash2 H s k) k v \<and>
      (fst item = k \<longrightarrow> snd item = v) \<and>
      (fst item \<noteq> k \<longrightarrow> holds (table s0 ! hash1 H s k) k v \<or> holds (table2 s0 ! hash2 H s k) k v))"

definition cuckooPost :: "(key \<Rightarrow> 64 word) \<Rightarrow> key \<Rightarrow> val \<Rightarrow> HybridHashTable \<Rightarrow> bool \<Rightarrow> HybridHashTable \<Rightarrow> bool" where
  "cuckooPost H k v s b s' =
     (capacity s' = capacity s \<and> stash s' = stash s \<and> currentMode s' = currentMode s \<and>
      length (table s') = capacity s \<and> length (table2 s') = capacity s \<and>
      keyOnlyAt (table s') (hash1 H s k) k v \<and> keyOnlyAt (table2 s') (hash2 H s k) k v \<and>
      (b \<longrightarrow> holds (table s' ! hash1 H s k) k v \<or> holds (table2 s' ! hash2 H s k) k v))"

text \<open>
  Robin Hood: the invariant of the probe loop for the key \<open>k\<close> before probe \<open>q\<close>, on the
  table \<open>T\<close> with the item in hand. The slots probed so far are occupied; the slots the
  scan can still reach and that were not probed do not hold \<open>k\<close>; and \<open>k\<close> is either in
  hand or in exactly one probed slot, with the value \<open>v\<close>.
\<close>

definition rhKey :: "slot list \<Rightarrow> nat \<Rightarrow> nat \<Rightarrow> key \<Rightarrow> val \<Rightarrow> key \<times> val \<Rightarrow> nat \<Rightarrow> bool" where
  "rhKey T cap ideal k v item q =
     ((\<forall>j<q. \<not> available (T ! ((ideal + j) mod cap))) \<and>
      fst item \<noteq> TOMBSTONE \<and>
      (fst item = k \<longrightarrow> snd item = v) \<and>
      (\<forall>j<MAX_PROBE_DISTANCE.
          (\<forall>j'<j. T ! ((ideal + j') mod cap) \<noteq> None) \<longrightarrow>
          (\<forall>j'<q. (ideal + j') mod cap \<noteq> (ideal + j) mod cap) \<longrightarrow>
          \<not> liveMatch (T ! ((ideal + j) mod cap)) k) \<and>
      (fst item = k \<longrightarrow> (\<forall>j<q. \<not> liveMatch (T ! ((ideal + j) mod cap)) k)) \<and>
      (fst item \<noteq> k \<longrightarrow>
         (\<exists>l<q. holds (T ! ((ideal + l) mod cap)) k v \<and>
            (\<forall>j<q. (ideal + j) mod cap \<noteq> (ideal + l) mod cap \<longrightarrow>
                \<not> liveMatch (T ! ((ideal + j) mod cap)) k))))"

text \<open>Hopscotch: the scan of \<^verbatim>\<open>searchInternal\<close> returns at bit \<open>j\<close>.\<close>

definition hopHit :: "slot list \<Rightarrow> 32 word \<Rightarrow> nat \<Rightarrow> nat \<Rightarrow> key \<Rightarrow> nat \<Rightarrow> bool" where
  "hopHit T w st en k j =
     (j < HOP_RANGE \<and> st + j < en \<and> w AND push_bit j 1 \<noteq> 0 \<and> liveMatch (T ! (st + j)) k)"

declare findEmptySlot_loop.simps [simp del]
declare displace_loop.simps [simp del]
declare hopscotch_scan.simps [simp del]
declare robinhood_scan.simps [simp del]
declare robinhood_insert_loop.simps [simp del]
declare cuckoo_insert_loop.simps [simp del]
declare backwardShift_loop.simps [simp del]
declare hopscotch_find.simps [simp del]
declare robinhood_find.simps [simp del]

section \<open>Basic facts\<close>

lemma hash_less: "0 < capacity s \<Longrightarrow> hash H s k < capacity s"
  by (simp add: hash_def)

lemma hash1_less: "0 < capacity s \<Longrightarrow> hash1 H s k < capacity s"
  by (simp add: hash1_def)

lemma hash2_less: "0 < capacity s \<Longrightarrow> hash2 H s k < capacity s"
  by (simp add: hash2_def)

lemma liveMatch_None [simp]: "liveMatch None k = False"
  by (simp add: liveMatch_def)

lemma hopscotch_scan_no_bits: "hopscotch_scan tbl 0 start end k i = None"
  by (induction tbl "0::32 word" start "end" k i rule: hopscotch_scan.induct)
     (subst hopscotch_scan.simps, simp)

lemma robinhood_scan_empty_first:
  "tbl ! ((index + probe) mod cap) = None \<Longrightarrow> robinhood_scan tbl cap index k probe = None"
  by (subst robinhood_scan.simps) simp

lemma allElements_capacity [simp]: "allElements (s\<lparr> capacity := n \<rparr>) = allElements s"
  by (simp add: allElements_def)

section \<open>setMode\<close>

lemma tableLookup_setMode:
  assumes "0 < capacity s"
  shows "tableLookup H (setMode m s) k = None"
proof (cases m)
  case Cuckoo
  then show ?thesis using assms
    by (simp add: tableLookup_def setMode_def hash1_def hash2_def)
next
  case Hopscotch
  then show ?thesis using assms
    by (simp add: tableLookup_def setMode_def hash_def hopscotch_scan_no_bits)
next
  case RobinHood
  then show ?thesis using assms
    by (simp add: tableLookup_def setMode_def hash_def robinhood_scan_empty_first)
qed

text \<open>
  C5. On every table with a positive capacity (every table on which an insert has
  returned) and for every mode \<open>m\<close>, after \<open>setMode m\<close> the size is \<open>0\<close> and the search
  of any key returns empty: the arrays and the stash are cleared, nothing is migrated.
\<close>

theorem setMode_clears:
  "0 < capacity s \<Longrightarrow> size_ht (setMode m s) = 0 \<and> search H k (setMode m s) = Inr None"
  using tableLookup_setMode [of s H m k]
  by (simp add: size_ht_def search_def searchInternal_def searchStash_def) (simp add: setMode_def)

theorem setMode_clears_witness:
  "0 < capacity \<lparr> table = [Some (''a'', 1)], capacity = 1, numElements = 1,
                   currentMode = Hopscotch, table2 = [None], hopInfo = [1],
                   probeDistances = [0], stash = [], totalInsertions = 1,
                   totalCollisions = 0, totalProbes = 0 \<rparr> \<and>
   size_ht (setMode RobinHood
     \<lparr> table = [Some (''a'', 1)], capacity = 1, numElements = 1,
       currentMode = Hopscotch, table2 = [None], hopInfo = [1],
       probeDistances = [0], stash = [], totalInsertions = 1,
       totalCollisions = 0, totalProbes = 0 \<rparr>) = 0 \<and>
   search lengthHash ''a'' (setMode RobinHood
     \<lparr> table = [Some (''a'', 1)], capacity = 1, numElements = 1,
       currentMode = Hopscotch, table2 = [None], hopInfo = [1],
       probeDistances = [0], stash = [], totalInsertions = 1,
       totalCollisions = 0, totalProbes = 0 \<rparr>) = Inr None"
  using setMode_clears [of "\<lparr> table = [Some (''a'', 1)], capacity = 1, numElements = 1,
       currentMode = Hopscotch, table2 = [None], hopInfo = [1],
       probeDistances = [0], stash = [], totalInsertions = 1,
       totalCollisions = 0, totalProbes = 0 \<rparr>" RobinHood lengthHash "''a''"]
  by simp



section \<open>resize\<close>

text \<open>
  C8, as the code has it. \<open>resize newSize\<close> does not compare \<open>newSize\<close> with the capacity:
  it overwrites the capacity with \<open>newSize\<close> and \<open>rehash\<close> doubles it. Whenever the call
  returns, the capacity is \<open>2 * newSize\<close> (modulo \<open>2^64\<close>), whatever it was before.
\<close>

theorem resize_capacity:
  "resize newSize s = Inr s' \<Longrightarrow> capacity s' = (newSize * 2) mod 2 ^ 64"
  by (auto simp: resize_def rehash_def Let_def split: if_splits)

theorem resize_capacity_witness:
  "run lengthHash [Insert ''a'' 1, Remove ''a''] (HybridHashTable_new 1) =
     Inr \<lparr> table = [Some (TOMBSTONE, 0)], capacity = 1, numElements = 0,
       currentMode = Hopscotch, table2 = [None], hopInfo = [0],
       probeDistances = [0], stash = [], totalInsertions = 1,
       totalCollisions = 0, totalProbes = 0 \<rparr> \<and>
   resize 32
     \<lparr> table = [Some (TOMBSTONE, 0)], capacity = 1, numElements = 0,
       currentMode = Hopscotch, table2 = [None], hopInfo = [0],
       probeDistances = [0], stash = [], totalInsertions = 1,
       totalCollisions = 0, totalProbes = 0 \<rparr> =
     Inr \<lparr> table = replicate 64 None, capacity = 64, numElements = 0,
       currentMode = Hopscotch, table2 = replicate 64 None, hopInfo = replicate 64 0,
       probeDistances = replicate 64 0, stash = [], totalInsertions = 1,
       totalCollisions = 0, totalProbes = 0 \<rparr> \<and>
   capacity
     \<lparr> table = replicate 64 None, capacity = 64, numElements = 0,
       currentMode = Hopscotch, table2 = replicate 64 None, hopInfo = replicate 64 0,
       probeDistances = replicate 64 0, stash = [], totalInsertions = 1,
       totalCollisions = 0, totalProbes = 0 \<rparr> = (32 * 2) mod 2 ^ 64"
proof -
  have r: "run lengthHash [Insert ''a'' 1, Remove ''a''] (HybridHashTable_new 1) =
     Inr \<lparr> table = [Some (TOMBSTONE, 0)], capacity = 1, numElements = 0,
       currentMode = Hopscotch, table2 = [None], hopInfo = [0],
       probeDistances = [0], stash = [], totalInsertions = 1,
       totalCollisions = 0, totalProbes = 0 \<rparr>"
    by code_simp
  have z: "resize 32
     \<lparr> table = [Some (TOMBSTONE, 0)], capacity = 1, numElements = 0,
       currentMode = Hopscotch, table2 = [None], hopInfo = [0],
       probeDistances = [0], stash = [], totalInsertions = 1,
       totalCollisions = 0, totalProbes = 0 \<rparr> =
     Inr \<lparr> table = replicate 64 None, capacity = 64, numElements = 0,
       currentMode = Hopscotch, table2 = replicate 64 None, hopInfo = replicate 64 0,
       probeDistances = replicate 64 0, stash = [], totalInsertions = 1,
       totalCollisions = 0, totalProbes = 0 \<rparr>"
    by (simp add: resize_def rehash_def allElements_def isTombstone_def)
  from r z resize_capacity [OF z] show ?thesis by blast
qed

text \<open>
  C8 as stated fails: \<open>resize 4\<close> on a fresh table of capacity 16 returns a table of
  capacity 8.
\<close>

theorem resize_shrinks_counterexample:
  "resize 4 (HybridHashTable_new 16) =
     Inr \<lparr> table = replicate 8 None, capacity = 8, numElements = 0, currentMode = Hopscotch,
           table2 = replicate 8 None, hopInfo = replicate 8 0, probeDistances = replicate 8 0,
           stash = [], totalInsertions = 0, totalCollisions = 0, totalProbes = 0 \<rparr>"
  by (simp add: resize_def rehash_def allElements_def HybridHashTable_new_def)

section \<open>The constructor\<close>

lemma size_t_of_int_negative:
  assumes "- (2 ^ 63) \<le> i" and "i < 0"
  shows "2 ^ 63 \<le> size_t_of_int i"
proof -
  from assms have "i mod 2 ^ 64 = i + 2 ^ 64"
    by (intro mod_pos_pos_trivial [THEN trans [OF mod_add_self2 [symmetric]]]) simp_all
  with assms show ?thesis by (simp add: size_t_of_int_def)
qed

text \<open>
  C9, as the code has it. The constructor has no check of its argument. Called with 0
  it returns a table of capacity 0 with empty arrays, and on that table every insert,
  remove and search divides by zero. A negative argument arrives as a \<^verbatim>\<open>size_t\<close> of at
  least \<open>2^63\<close>, above every \<^verbatim>\<open>max_size()\<close>: the first \<^verbatim>\<open>resize\<close> throws and no table is
  built.
\<close>

theorem constructor_no_validation:
  "HybridHashTable_ctor maxSize 0 = Inr (HybridHashTable_new 0) \<and>
   capacity (HybridHashTable_new 0) = 0 \<and>
   table (HybridHashTable_new 0) = [] \<and>
   table2 (HybridHashTable_new 0) = [] \<and>
   insert_ht H k v (HybridHashTable_new 0) = Inl DivisionByZero \<and>
   remove_ht H k (HybridHashTable_new 0) = Inl DivisionByZero \<and>
   search H k (HybridHashTable_new 0) = Inl DivisionByZero \<and>
   (maxSize < 2 ^ 63 \<and> - (2 ^ 63) \<le> i \<and> i < 0 \<longrightarrow>
      HybridHashTable_ctor maxSize (size_t_of_int i) = Inl LengthError)"
  using size_t_of_int_negative [of i]
  by (auto simp: HybridHashTable_ctor_def HybridHashTable_new_def insert_ht_def remove_ht_def
        search_def)

theorem constructor_no_validation_witness:
  "(192153584101141162::nat) < 2 ^ 63 \<and> - (2 ^ 63) \<le> (- 1::int) \<and> (- 1::int) < 0 \<and>
   HybridHashTable_ctor 192153584101141162 (size_t_of_int (- 1)) = Inl LengthError \<and>
   HybridHashTable_ctor 192153584101141162 0 = Inr (HybridHashTable_new 0) \<and>
   search lengthHash ''a'' (HybridHashTable_new 0) = Inl DivisionByZero"
  using constructor_no_validation [of 192153584101141162 lengthHash "''a''" 1 "- 1"]
  by simp

text \<open>
  C9 as stated fails: the constructor called with 0 returns a table, of capacity 0
  (\<open>192153584101141162\<close> is \<^verbatim>\<open>max_size()\<close> for 48-byte elements).
\<close>

theorem constructor_zero_counterexample:
  "HybridHashTable_ctor 192153584101141162 0 =
     Inr \<lparr> table = [], capacity = 0, numElements = 0, currentMode = Hopscotch, table2 = [],
       hopInfo = [], probeDistances = [], stash = [],
       totalInsertions = 0, totalCollisions = 0, totalProbes = 0 \<rparr>"
  by (simp add: HybridHashTable_ctor_def HybridHashTable_new_def)

section \<open>Loop invariants\<close>

lemma hash_update [simp]:
  "hash H (s\<lparr> table := t \<rparr>) = hash H s"
  "hash H (s\<lparr> table2 := t \<rparr>) = hash H s"
  "hash H (s\<lparr> numElements := n \<rparr>) = hash H s"
  "hash H (s\<lparr> currentMode := m \<rparr>) = hash H s"
  "hash H (s\<lparr> hopInfo := hi \<rparr>) = hash H s"
  "hash H (s\<lparr> probeDistances := pd \<rparr>) = hash H s"
  "hash H (s\<lparr> stash := st \<rparr>) = hash H s"
  "hash H (s\<lparr> totalInsertions := n \<rparr>) = hash H s"
  "hash H (s\<lparr> totalCollisions := n \<rparr>) = hash H s"
  "hash H (s\<lparr> totalProbes := n \<rparr>) = hash H s"
  by (simp_all add: hash_def fun_eq_iff)

lemma hash1_update [simp]:
  "hash1 H (s\<lparr> table := t \<rparr>) = hash1 H s"
  "hash1 H (s\<lparr> table2 := t \<rparr>) = hash1 H s"
  "hash1 H (s\<lparr> numElements := n \<rparr>) = hash1 H s"
  "hash1 H (s\<lparr> currentMode := m \<rparr>) = hash1 H s"
  "hash1 H (s\<lparr> hopInfo := hi \<rparr>) = hash1 H s"
  "hash1 H (s\<lparr> probeDistances := pd \<rparr>) = hash1 H s"
  "hash1 H (s\<lparr> stash := st \<rparr>) = hash1 H s"
  "hash1 H (s\<lparr> totalInsertions := n \<rparr>) = hash1 H s"
  "hash1 H (s\<lparr> totalCollisions := n \<rparr>) = hash1 H s"
  "hash1 H (s\<lparr> totalProbes := n \<rparr>) = hash1 H s"
  by (simp_all add: hash1_def fun_eq_iff)

lemma hash2_update [simp]:
  "hash2 H (s\<lparr> table := t \<rparr>) = hash2 H s"
  "hash2 H (s\<lparr> table2 := t \<rparr>) = hash2 H s"
  "hash2 H (s\<lparr> numElements := n \<rparr>) = hash2 H s"
  "hash2 H (s\<lparr> currentMode := m \<rparr>) = hash2 H s"
  "hash2 H (s\<lparr> hopInfo := hi \<rparr>) = hash2 H s"
  "hash2 H (s\<lparr> probeDistances := pd \<rparr>) = hash2 H s"
  "hash2 H (s\<lparr> stash := st \<rparr>) = hash2 H s"
  "hash2 H (s\<lparr> totalInsertions := n \<rparr>) = hash2 H s"
  "hash2 H (s\<lparr> totalCollisions := n \<rparr>) = hash2 H s"
  "hash2 H (s\<lparr> totalProbes := n \<rparr>) = hash2 H s"
  by (simp_all add: hash2_def fun_eq_iff)

text \<open>An invariant rule for the eviction loop.\<close>

lemma cuckoo_insert_loop_rule:
  assumes run: "cuckoo_insert_loop H s item e = (b, s')"
    and init: "I s item"
    and fail: "\<And>s item. I s item \<Longrightarrow> Q False s"
    and place1: "\<And>s item. I s item \<Longrightarrow> available (table s ! hash1 H s (fst item)) \<Longrightarrow>
        Q True (s\<lparr> table := (table s)[hash1 H s (fst item) := Some item],
                    numElements := numElements s + 1 \<rparr>)"
    and place2: "\<And>s item. I s item \<Longrightarrow> \<not> available (table s ! hash1 H s (fst item)) \<Longrightarrow>
        available (table2 s ! hash2 H s (fst (the (table s ! hash1 H s (fst item))))) \<Longrightarrow>
        Q True (s\<lparr> table := (table s)[hash1 H s (fst item) := Some item],
                    table2 := (table2 s)[hash2 H s (fst (the (table s ! hash1 H s (fst item)))) :=
                                Some (the (table s ! hash1 H s (fst item)))],
                    numElements := numElements s + 1 \<rparr>)"
    and swap: "\<And>s item. I s item \<Longrightarrow> \<not> available (table s ! hash1 H s (fst item)) \<Longrightarrow>
        \<not> available (table2 s ! hash2 H s (fst (the (table s ! hash1 H s (fst item))))) \<Longrightarrow>
        I (s\<lparr> table := (table s)[hash1 H s (fst item) := Some item],
               table2 := (table2 s)[hash2 H s (fst (the (table s ! hash1 H s (fst item)))) :=
                                Some (the (table s ! hash1 H s (fst item)))],
               totalCollisions := totalCollisions s + 1 \<rparr>)
          (the (table2 s ! hash2 H s (fst (the (table s ! hash1 H s (fst item))))))"
  shows "Q b s'"
  using run init
proof (induction "MAX_EVICTIONS - e" arbitrary: s item e rule: less_induct)
  case less
  show ?case
  proof (cases "e < MAX_EVICTIONS")
    case False
    with less.prems fail show ?thesis
      by (subst (asm) cuckoo_insert_loop.simps) auto
  next
    case lt: True
    show ?thesis
    proof (cases "available (table s ! hash1 H s (fst item))")
      case True
      with less.prems lt place1 [OF less.prems(2) True] show ?thesis
        by (subst (asm) cuckoo_insert_loop.simps) (auto simp: Let_def)
    next
      case n1: False
      show ?thesis
      proof (cases "available (table2 s ! hash2 H s (fst (the (table s ! hash1 H s (fst item)))))")
        case True
        with less.prems lt n1 place2 [OF less.prems(2) n1 True] show ?thesis
          by (subst (asm) cuckoo_insert_loop.simps) (auto simp: Let_def)
      next
        case n2: False
        have next_run: "cuckoo_insert_loop H
            (s\<lparr> table := (table s)[hash1 H s (fst item) := Some item],
               table2 := (table2 s)[hash2 H s (fst (the (table s ! hash1 H s (fst item)))) :=
                                Some (the (table s ! hash1 H s (fst item)))],
               totalCollisions := totalCollisions s + 1 \<rparr>)
            (the (table2 s ! hash2 H s (fst (the (table s ! hash1 H s (fst item))))))
            (e + 1 + 1) = (b, s')"
          using less.prems(1) lt n1 n2
          by (subst (asm) cuckoo_insert_loop.simps) (simp add: Let_def)
        have "MAX_EVICTIONS - (e + 1 + 1) < MAX_EVICTIONS - e" using lt by simp
        from less.hyps [OF this next_run swap [OF less.prems(2) n1 n2]] show ?thesis .
      qed
    qed
  qed
qed

lemma keyOnlyAt_update:
  assumes a: "keyOnlyAt tbl h k v" and x: "fst x = k \<longrightarrow> snd x = v \<and> j = h"
  shows "keyOnlyAt (tbl[j := Some x]) h k v"
proof (cases "j < length tbl")
  case True
  show ?thesis
    unfolding keyOnlyAt_def
  proof (intro allI impI)
    fix i w assume i: "i < length (tbl[j := Some x])" and e: "tbl[j := Some x] ! i = Some (k, w)"
    show "i = h \<and> w = v"
    proof (cases "i = j")
      case eq: True
      with e True have "x = (k, w)" by simp
      then have "fst x = k" "snd x = w" by simp_all
      with x eq show ?thesis by blast
    next
      case False
      with e have "tbl ! i = Some (k, w)" by simp
      moreover from i have "i < length tbl" by simp
      ultimately show ?thesis using a unfolding keyOnlyAt_def by blast
    qed
  qed
next
  case False
  with a show ?thesis by (simp add: list_update_beyond)
qed

lemma hash_cap_eq:
  "capacity s0 = capacity s \<Longrightarrow> hash1 H s0 = hash1 H s"
  "capacity s0 = capacity s \<Longrightarrow> hash2 H s0 = hash2 H s"
  "capacity s0 = capacity s \<Longrightarrow> hash H s0 = hash H s"
  by (simp_all add: hash1_def hash2_def hash_def fun_eq_iff)

lemma unavailable_SomeD: "\<not> available sl \<Longrightarrow> \<exists>p. sl = Some p \<and> fst p \<noteq> TOMBSTONE"
  by (cases sl) (auto simp: available_def isTombstone_def)

lemma cuckoo_swap_key:
  assumes "keyOnlyAt tbl h k v" "j < length tbl" "tbl ! j = Some p" "fst p = k"
  shows "snd p = v \<and> j = h"
proof -
  from assms(3,4) have "tbl ! j = Some (k, snd p)" by (cases p) simp
  with assms(1,2) show ?thesis unfolding keyOnlyAt_def by blast
qed

lemma holds_unavailable: "k \<noteq> TOMBSTONE \<Longrightarrow> holds sl k v \<Longrightarrow> \<not> available sl"
  by (simp add: holds_def available_def isTombstone_def)

text \<open>What one write of the loop does to a table, on lists.\<close>

lemma cuckoo_write_holds:
  assumes item: "fst item = k \<longrightarrow> snd item = v \<and> j = h1"
    and j: "j < length T1"
    and has: "fst item \<noteq> k \<longrightarrow> holds (T1 ! h1) k v \<or> R"
  shows "holds (T1[j := Some item] ! h1) k v \<or> (j = h1 \<and> holds (T1 ! j) k v) \<or> R"
proof (cases "fst item = k")
  case True
  with item have "item = (k, v)" "j = h1" by (auto simp: prod_eq_iff)
  with j show ?thesis by (simp add: holds_def)
next
  case False
  with has have "holds (T1 ! h1) k v \<or> R" by blast
  then show ?thesis
  proof
    assume "holds (T1 ! h1) k v"
    then show ?thesis by (cases "j = h1") simp_all
  next
    assume R then show ?thesis by blast
  qed
qed

lemma cuckooInvD:
  assumes "cuckooInv H k v s s0 item"
  shows "capacity s0 = capacity s" "stash s0 = stash s" "currentMode s0 = currentMode s"
    "length (table s0) = capacity s" "length (table2 s0) = capacity s"
    "keyOnlyAt (table s0) (hash1 H s k) k v" "keyOnlyAt (table2 s0) (hash2 H s k) k v"
    "fst item = k \<longrightarrow> snd item = v"
    "fst item \<noteq> k \<longrightarrow> holds (table s0 ! hash1 H s k) k v \<or> holds (table2 s0 ! hash2 H s k) k v"
    "hash1 H s0 = hash1 H s" "hash2 H s0 = hash2 H s"
  using assms unfolding cuckooInv_def by (blast intro: hash_cap_eq)+

lemma cuckoo_insert_post:
  assumes run: "cuckoo_insert_loop H s (k, v) 0 = (b, s')"
    and cap: "0 < capacity s"
    and kT: "k \<noteq> TOMBSTONE"
    and len: "length (table s) = capacity s" "length (table2 s) = capacity s"
    and k1: "keyOnlyAt (table s) (hash1 H s k) k v"
    and k2: "keyOnlyAt (table2 s) (hash2 H s k) k v"
  shows "cuckooPost H k v s b s'"
proof (rule cuckoo_insert_loop_rule [OF run, where I = "cuckooInv H k v s" and Q = "cuckooPost H k v s"])
  show "cuckooInv H k v s s (k, v)"
    unfolding cuckooInv_def using len k1 k2 by simp
next
  fix s0 item assume "cuckooInv H k v s s0 item"
  note f = cuckooInvD [OF this]
  show "cuckooPost H k v s False s0"
    unfolding cuckooPost_def using f(1-7) by simp
next
  fix s0 item
  assume I: "cuckooInv H k v s s0 item"
    and av: "available (table s0 ! hash1 H s0 (fst item))"
  note f = cuckooInvD [OF I]
  have j: "hash1 H s (fst item) < length (table s0)"
    using f(4) cap by (simp add: hash1_less)
  have it: "fst item = k \<longrightarrow> snd item = v \<and> hash1 H s (fst item) = hash1 H s k"
    using f(8) by blast
  have "\<not> (hash1 H s (fst item) = hash1 H s k \<and> holds (table s0 ! hash1 H s (fst item)) k v)"
    using av holds_unavailable [OF kT] unfolding f(10) by blast
  with cuckoo_write_holds [OF it j f(9)]
  have *: "holds ((table s0)[hash1 H s (fst item) := Some item] ! hash1 H s k) k v
       \<or> holds (table2 s0 ! hash2 H s k) k v" by blast
  have **: "keyOnlyAt ((table s0)[hash1 H s (fst item) := Some item]) (hash1 H s k) k v"
    using f(6) it by (rule keyOnlyAt_update)
  show "cuckooPost H k v s True
          (s0\<lparr> table := (table s0)[hash1 H s0 (fst item) := Some item],
                numElements := numElements s0 + 1 \<rparr>)"
    unfolding cuckooPost_def f(10) using f(1-5,7) * ** by simp
next
  fix s0 item
  assume I: "cuckooInv H k v s s0 item"
    and n1: "\<not> available (table s0 ! hash1 H s0 (fst item))"
    and av: "available (table2 s0 ! hash2 H s0 (fst (the (table s0 ! hash1 H s0 (fst item)))))"
  note f = cuckooInvD [OF I]
  obtain p where p: "table s0 ! hash1 H s (fst item) = Some p"
    using unavailable_SomeD [OF n1] unfolding f(10) by blast
  have j: "hash1 H s (fst item) < length (table s0)"
    and j2: "hash2 H s (fst p) < length (table2 s0)"
    using f(4,5) cap by (simp_all add: hash1_less hash2_less)
  have it: "fst item = k \<longrightarrow> snd item = v \<and> hash1 H s (fst item) = hash1 H s k"
    using f(8) by blast
  have pk: "fst p = k \<longrightarrow> snd p = v \<and> hash2 H s (fst p) = hash2 H s k"
    using cuckoo_swap_key [OF f(6) j p] by auto
  have pk': "hash1 H s (fst item) = hash1 H s k \<and> holds (table s0 ! hash1 H s (fst item)) k v
       \<Longrightarrow> fst p = k"
    using p by (simp add: holds_def)
  from cuckoo_write_holds [OF it j f(9)] pk'
  have "fst p \<noteq> k \<longrightarrow> holds (table2 s0 ! hash2 H s k) k v
          \<or> holds ((table s0)[hash1 H s (fst item) := Some item] ! hash1 H s k) k v"
    by blast
  note w2 = cuckoo_write_holds [OF pk j2 this]
  have "\<not> (hash2 H s (fst p) = hash2 H s k \<and> holds (table2 s0 ! hash2 H s (fst p)) k v)"
    using av holds_unavailable [OF kT] unfolding f(10,11) p by auto
  with w2 have *: "holds ((table s0)[hash1 H s (fst item) := Some item] ! hash1 H s k) k v
       \<or> holds ((table2 s0)[hash2 H s (fst p) := Some p] ! hash2 H s k) k v" by blast
  have k1': "keyOnlyAt ((table s0)[hash1 H s (fst item) := Some item]) (hash1 H s k) k v"
    using f(6) it by (rule keyOnlyAt_update)
  have k2': "keyOnlyAt ((table2 s0)[hash2 H s (fst p) := Some p]) (hash2 H s k) k v"
    using f(7) pk by (rule keyOnlyAt_update)
  show "cuckooPost H k v s True
          (s0\<lparr> table := (table s0)[hash1 H s0 (fst item) := Some item],
                table2 := (table2 s0)[hash2 H s0 (fst (the (table s0 ! hash1 H s0 (fst item)))) :=
                                Some (the (table s0 ! hash1 H s0 (fst item)))],
                numElements := numElements s0 + 1 \<rparr>)"
    unfolding cuckooPost_def f(10,11) p using f(1-5) * k1' k2' by simp
next
  fix s0 item
  assume I: "cuckooInv H k v s s0 item"
    and n1: "\<not> available (table s0 ! hash1 H s0 (fst item))"
    and n2: "\<not> available (table2 s0 ! hash2 H s0 (fst (the (table s0 ! hash1 H s0 (fst item)))))"
  note f = cuckooInvD [OF I]
  obtain p where p: "table s0 ! hash1 H s (fst item) = Some p"
    using unavailable_SomeD [OF n1] unfolding f(10) by blast
  obtain q where q: "table2 s0 ! hash2 H s (fst p) = Some q"
    using unavailable_SomeD [OF n2] unfolding f(10,11) p by auto
  have j: "hash1 H s (fst item) < length (table s0)"
    and j2: "hash2 H s (fst p) < length (table2 s0)"
    using f(4,5) cap by (simp_all add: hash1_less hash2_less)
  have it: "fst item = k \<longrightarrow> snd item = v \<and> hash1 H s (fst item) = hash1 H s k"
    using f(8) by blast
  have pk: "fst p = k \<longrightarrow> snd p = v \<and> hash2 H s (fst p) = hash2 H s k"
    using cuckoo_swap_key [OF f(6) j p] by auto
  have qk: "fst q = k \<longrightarrow> snd q = v"
    using cuckoo_swap_key [OF f(7) j2 q] by auto
  have pk': "hash1 H s (fst item) = hash1 H s k \<and> holds (table s0 ! hash1 H s (fst item)) k v
       \<Longrightarrow> fst p = k"
    using p by (simp add: holds_def)
  from cuckoo_write_holds [OF it j f(9)] pk'
  have "fst p \<noteq> k \<longrightarrow> holds (table2 s0 ! hash2 H s k) k v
          \<or> holds ((table s0)[hash1 H s (fst item) := Some item] ! hash1 H s k) k v"
    by blast
  note w2 = cuckoo_write_holds [OF pk j2 this]
  have "hash2 H s (fst p) = hash2 H s k \<and> holds (table2 s0 ! hash2 H s (fst p)) k v \<Longrightarrow> fst q = k"
    using q by (simp add: holds_def)
  with w2 have *: "fst q \<noteq> k \<longrightarrow>
        holds ((table s0)[hash1 H s (fst item) := Some item] ! hash1 H s k) k v
       \<or> holds ((table2 s0)[hash2 H s (fst p) := Some p] ! hash2 H s k) k v" by blast
  have k1': "keyOnlyAt ((table s0)[hash1 H s (fst item) := Some item]) (hash1 H s k) k v"
    using f(6) it by (rule keyOnlyAt_update)
  have k2': "keyOnlyAt ((table2 s0)[hash2 H s (fst p) := Some p]) (hash2 H s k) k v"
    using f(7) pk by (rule keyOnlyAt_update)
  show "cuckooInv H k v s
          (s0\<lparr> table := (table s0)[hash1 H s0 (fst item) := Some item],
                table2 := (table2 s0)[hash2 H s0 (fst (the (table s0 ! hash1 H s0 (fst item)))) :=
                                Some (the (table s0 ! hash1 H s0 (fst item)))],
                totalCollisions := totalCollisions s0 + 1 \<rparr>)
          (the (table2 s0 ! hash2 H s0 (fst (the (table s0 ! hash1 H s0 (fst item))))))"
    unfolding cuckooInv_def f(10,11) p using f(1-5) * k1' k2' qk by (simp add: q)
qed

lemma robinhood_insert_loop_rule:
  assumes run: "robinhood_insert_loop s item ideal cd probe = (b, s')"
    and init: "I s item cd probe"
    and fail: "\<And>s item cd probe. I s item cd probe \<Longrightarrow> \<not> probe < MAX_PROBE_DISTANCE \<Longrightarrow> Q False s"
    and place: "\<And>s item cd probe. I s item cd probe \<Longrightarrow> probe < MAX_PROBE_DISTANCE \<Longrightarrow>
        available (table s ! ((ideal + probe) mod capacity s)) \<Longrightarrow>
        Q True (s\<lparr> totalProbes := totalProbes s + 1,
                    table := (table s)[(ideal + probe) mod capacity s := Some item],
                    probeDistances := (probeDistances s)[(ideal + probe) mod capacity s := cd],
                    numElements := numElements s + 1 \<rparr>)"
    and swap: "\<And>s item cd probe. I s item cd probe \<Longrightarrow> probe < MAX_PROBE_DISTANCE \<Longrightarrow>
        \<not> available (table s ! ((ideal + probe) mod capacity s)) \<Longrightarrow>
        cd > probeDistances s ! ((ideal + probe) mod capacity s) \<Longrightarrow>
        I (s\<lparr> totalProbes := totalProbes s + 1,
               table := (table s)[(ideal + probe) mod capacity s := Some item],
               probeDistances := (probeDistances s)[(ideal + probe) mod capacity s := cd] \<rparr>)
          (the (table s ! ((ideal + probe) mod capacity s)))
          (probeDistances s ! ((ideal + probe) mod capacity s) + 1) (probe + 1)"
    and skip: "\<And>s item cd probe. I s item cd probe \<Longrightarrow> probe < MAX_PROBE_DISTANCE \<Longrightarrow>
        \<not> available (table s ! ((ideal + probe) mod capacity s)) \<Longrightarrow>
        \<not> cd > probeDistances s ! ((ideal + probe) mod capacity s) \<Longrightarrow>
        I (s\<lparr> totalProbes := totalProbes s + 1, totalCollisions := totalCollisions s + 1 \<rparr>)
          item (cd + 1) (probe + 1)"
  shows "Q b s'"
  using run init
proof (induction "MAX_PROBE_DISTANCE - probe" arbitrary: s item cd probe rule: less_induct)
  case less
  show ?case
  proof (cases "probe < MAX_PROBE_DISTANCE")
    case False
    with less.prems(1) have "b = False" "s' = s"
      by (subst (asm) robinhood_insert_loop.simps, simp)+
    with fail [OF less.prems(2) False] show ?thesis by simp
  next
    case lt: True
    then have m: "MAX_PROBE_DISTANCE - (probe + 1) < MAX_PROBE_DISTANCE - probe" by simp
    show ?thesis
    proof (cases "available (table s ! ((ideal + probe) mod capacity s))")
      case True
      with less.prems(1) lt have "b = True"
        "s' = s\<lparr> totalProbes := totalProbes s + 1,
                    table := (table s)[(ideal + probe) mod capacity s := Some item],
                    probeDistances := (probeDistances s)[(ideal + probe) mod capacity s := cd],
                    numElements := numElements s + 1 \<rparr>"
        by (subst (asm) robinhood_insert_loop.simps, simp add: Let_def)+
      with place [OF less.prems(2) lt True] show ?thesis by simp
    next
      case na: False
      show ?thesis
      proof (cases "cd > probeDistances s ! ((ideal + probe) mod capacity s)")
        case True
        have "robinhood_insert_loop
                (s\<lparr> totalProbes := totalProbes s + 1,
                    table := (table s)[(ideal + probe) mod capacity s := Some item],
                    probeDistances := (probeDistances s)[(ideal + probe) mod capacity s := cd] \<rparr>)
                (the (table s ! ((ideal + probe) mod capacity s))) ideal
                (probeDistances s ! ((ideal + probe) mod capacity s) + 1) (probe + 1) = (b, s')"
          using less.prems(1) lt na True
          by (subst (asm) robinhood_insert_loop.simps) (simp add: Let_def)
        from less.hyps [OF m this swap [OF less.prems(2) lt na True]] show ?thesis .
      next
        case False
        have "robinhood_insert_loop
                (s\<lparr> totalProbes := totalProbes s + 1, totalCollisions := totalCollisions s + 1 \<rparr>)
                item ideal (cd + 1) (probe + 1) = (b, s')"
          using less.prems(1) lt na False
          by (subst (asm) robinhood_insert_loop.simps) (simp add: Let_def)
        from less.hyps [OF m this skip [OF less.prems(2) lt na False]] show ?thesis .
      qed
    qed
  qed
qed

text \<open>Facts about the Robin Hood scan.\<close>

lemma robinhood_scan_NoneD:
  assumes "robinhood_scan T cap ideal k p = None" "p \<le> j" "j < MAX_PROBE_DISTANCE"
    and "\<forall>j'. p \<le> j' \<and> j' < j \<longrightarrow> T ! ((ideal + j') mod cap) \<noteq> None"
  shows "\<not> liveMatch (T ! ((ideal + j) mod cap)) k"
  using assms
proof (induction "j - p" arbitrary: p)
  case 0
  then have "p = j" by simp
  with 0 show ?case
    by (subst (asm) robinhood_scan.simps) (auto simp: Let_def split: if_splits)
next
  case (Suc n)
  then have lt: "p < j" "p < MAX_PROBE_DISTANCE" by simp_all
  with Suc.prems(4) have nn: "T ! ((ideal + p) mod cap) \<noteq> None" by simp
  have "robinhood_scan T cap ideal k (p + 1) = None"
    using Suc.prems(1) lt nn
    by (subst (asm) robinhood_scan.simps) (simp add: Let_def split: if_splits)
  moreover have "n = j - (p + 1)" using Suc.hyps(2) by simp
  ultimately show ?case using Suc.hyps(1) [of "p + 1"] Suc.prems lt by simp
qed

lemma robinhood_scan_found:
  assumes "l < MAX_PROBE_DISTANCE" "p \<le> l"
    and "\<forall>j. p \<le> j \<and> j \<le> l \<longrightarrow> T ! ((ideal + j) mod cap) \<noteq> None"
    and "liveMatch (T ! ((ideal + l) mod cap)) k"
    and "\<forall>j. p \<le> j \<and> j \<le> l \<longrightarrow> liveMatch (T ! ((ideal + j) mod cap)) k \<longrightarrow>
            snd (the (T ! ((ideal + j) mod cap))) = v"
  shows "robinhood_scan T cap ideal k p = Some v"
  using assms
proof (induction "l - p" arbitrary: p)
  case 0
  then have "p = l" by simp
  with 0 show ?case
    by (subst robinhood_scan.simps) (simp add: Let_def)
next
  case (Suc n)
  then have lt: "p < l" "p < MAX_PROBE_DISTANCE" by simp_all
  have nn: "T ! ((ideal + p) mod cap) \<noteq> None" using Suc.prems(3) lt by simp
  show ?case
  proof (cases "liveMatch (T ! ((ideal + p) mod cap)) k")
    case True
    with Suc.prems(5) lt have "snd (the (T ! ((ideal + p) mod cap))) = v" by simp
    with True nn lt show ?thesis
      by (subst robinhood_scan.simps) (simp add: Let_def)
  next
    case False
    have "n = l - (p + 1)" using Suc.hyps(2) by simp
    from Suc.hyps(1) [OF this Suc.prems(1)] Suc.prems lt
    have "robinhood_scan T cap ideal k (p + 1) = Some v" by simp
    with False nn lt show ?thesis
      by (subst robinhood_scan.simps) (simp add: Let_def)
  qed
qed

lemma robinhood_scan_value:
  assumes "\<forall>j<MAX_PROBE_DISTANCE. liveMatch (T ! ((ideal + j) mod cap)) k \<longrightarrow>
            snd (the (T ! ((ideal + j) mod cap))) = v"
  shows "robinhood_scan T cap ideal k p = None \<or> robinhood_scan T cap ideal k p = Some v"
proof (induction "MAX_PROBE_DISTANCE - p" arbitrary: p rule: less_induct)
  case less
  show ?case
  proof (cases "p < MAX_PROBE_DISTANCE")
    case False
    then show ?thesis by (subst robinhood_scan.simps) simp
  next
    case True
    then have "MAX_PROBE_DISTANCE - (p + 1) < MAX_PROBE_DISTANCE - p" by simp
    from less.hyps [OF this] assms True show ?thesis
      by (subst (1 2) robinhood_scan.simps) (auto simp: Let_def)
  qed
qed

lemma available_None [simp]: "available None"
  by (simp add: available_def)

lemma liveMatch_Some: "liveMatch (Some p) k = (fst p = k \<and> k \<noteq> TOMBSTONE)"
  by (auto simp: liveMatch_def isTombstone_def)

lemma available_Some: "available (Some p) = (fst p = TOMBSTONE)"
  by (simp add: available_def isTombstone_def)

lemma holds_liveMatch: "k \<noteq> TOMBSTONE \<Longrightarrow> holds sl k v \<Longrightarrow> liveMatch sl k"
  by (simp add: holds_def liveMatch_Some)

lemma rhKey_fresh:
  assumes R: "rhKey T cap ideal k v item q" and q: "q < MAX_PROBE_DISTANCE"
  shows "(\<exists>j'<q. (ideal + j') mod cap = (ideal + q) mod cap) \<or>
         \<not> liveMatch (T ! ((ideal + q) mod cap)) k"
proof -
  from R have "\<forall>j'<q. T ! ((ideal + j') mod cap) \<noteq> None"
    unfolding rhKey_def by (metis available_None)
  with R q show ?thesis unfolding rhKey_def by blast
qed

lemma rhKey_init:
  assumes "robinhood_scan T cap ideal k 0 = None" "k \<noteq> TOMBSTONE"
  shows "rhKey T cap ideal k v (k, v) 0"
  unfolding rhKey_def using assms robinhood_scan_NoneD [OF assms(1)]
  by simp

lemma rhKey_skip:
  assumes R: "rhKey T cap ideal k v item q" and q: "q < MAX_PROBE_DISTANCE"
    and na: "\<not> available (T ! ((ideal + q) mod cap))"
  shows "rhKey T cap ideal k v item (q + 1)"
proof -
  note fresh = rhKey_fresh [OF R q]
  have v1: "\<forall>j<q + 1. \<not> available (T ! ((ideal + j) mod cap))"
    using R na unfolding rhKey_def by (auto simp: less_Suc_eq)
  have z: "\<forall>j<MAX_PROBE_DISTANCE.
          (\<forall>j'<j. T ! ((ideal + j') mod cap) \<noteq> None) \<longrightarrow>
          (\<forall>j'<q + 1. (ideal + j') mod cap \<noteq> (ideal + j) mod cap) \<longrightarrow>
          \<not> liveMatch (T ! ((ideal + j) mod cap)) k"
    using R unfolding rhKey_def by simp
  have ka: "fst item = k \<longrightarrow> (\<forall>j<q + 1. \<not> liveMatch (T ! ((ideal + j) mod cap)) k)"
  proof (intro impI allI)
    fix j assume ik: "fst item = k" and j: "j < q + 1"
    with R have a: "\<forall>j<q. \<not> liveMatch (T ! ((ideal + j) mod cap)) k"
      unfolding rhKey_def by blast
    show "\<not> liveMatch (T ! ((ideal + j) mod cap)) k"
    proof (cases "j < q")
      case True with a show ?thesis by blast
    next
      case False
      with j have "j = q" by simp
      with fresh a show ?thesis by metis
    qed
  qed
  have kb: "fst item \<noteq> k \<longrightarrow>
         (\<exists>l<q + 1. holds (T ! ((ideal + l) mod cap)) k v \<and>
            (\<forall>j<q + 1. (ideal + j) mod cap \<noteq> (ideal + l) mod cap \<longrightarrow>
                \<not> liveMatch (T ! ((ideal + j) mod cap)) k))"
  proof
    assume "fst item \<noteq> k"
    with R obtain l where l: "l < q" "holds (T ! ((ideal + l) mod cap)) k v"
      "\<forall>j<q. (ideal + j) mod cap \<noteq> (ideal + l) mod cap \<longrightarrow>
                \<not> liveMatch (T ! ((ideal + j) mod cap)) k"
      unfolding rhKey_def by blast
    have "\<forall>j<q + 1. (ideal + j) mod cap \<noteq> (ideal + l) mod cap \<longrightarrow>
                \<not> liveMatch (T ! ((ideal + j) mod cap)) k"
    proof (intro allI impI)
      fix j assume j: "j < q + 1" and ne: "(ideal + j) mod cap \<noteq> (ideal + l) mod cap"
      show "\<not> liveMatch (T ! ((ideal + j) mod cap)) k"
      proof (cases "j < q")
        case True with l(3) ne show ?thesis by blast
      next
        case False
        with j have "j = q" by simp
        with fresh l(3) ne show ?thesis by metis
      qed
    qed
    with l(1,2) show "\<exists>l<q + 1. holds (T ! ((ideal + l) mod cap)) k v \<and>
            (\<forall>j<q + 1. (ideal + j) mod cap \<noteq> (ideal + l) mod cap \<longrightarrow>
                \<not> liveMatch (T ! ((ideal + j) mod cap)) k)"
      by (metis less_SucI Suc_eq_plus1)
  qed
  from R have "fst item \<noteq> TOMBSTONE" "fst item = k \<longrightarrow> snd item = v"
    unfolding rhKey_def by blast+
  with v1 z ka kb show ?thesis unfolding rhKey_def by blast
qed

lemma rhKey_swap:
  assumes R: "rhKey T cap ideal k v item q" and q: "q < MAX_PROBE_DISTANCE"
    and na: "\<not> available (T ! ((ideal + q) mod cap))"
    and len: "(ideal + q) mod cap < length T"
  shows "rhKey (T[(ideal + q) mod cap := Some item]) cap ideal k v
           (the (T ! ((ideal + q) mod cap))) (q + 1)"
proof -
  let ?c = "(ideal + q) mod cap"
  let ?T' = "T[?c := Some item]"
  obtain y where y: "T ! ?c = Some y" "fst y \<noteq> TOMBSTONE"
    using unavailable_SomeD [OF na] by blast
  note fresh = rhKey_fresh [OF R q]
  from R have v1: "\<forall>j<q. \<not> available (T ! ((ideal + j) mod cap))"
    and v2: "fst item \<noteq> TOMBSTONE" and v3: "fst item = k \<longrightarrow> snd item = v"
    and z: "\<forall>j<MAX_PROBE_DISTANCE.
          (\<forall>j'<j. T ! ((ideal + j') mod cap) \<noteq> None) \<longrightarrow>
          (\<forall>j'<q. (ideal + j') mod cap \<noteq> (ideal + j) mod cap) \<longrightarrow>
          \<not> liveMatch (T ! ((ideal + j) mod cap)) k"
    and ka: "fst item = k \<longrightarrow> (\<forall>j<q. \<not> liveMatch (T ! ((ideal + j) mod cap)) k)"
    and kb: "fst item \<noteq> k \<longrightarrow>
         (\<exists>l<q. holds (T ! ((ideal + l) mod cap)) k v \<and>
            (\<forall>j<q. (ideal + j) mod cap \<noteq> (ideal + l) mod cap \<longrightarrow>
                \<not> liveMatch (T ! ((ideal + j) mod cap)) k))"
    unfolding rhKey_def by blast+
  have u1: "?T' ! ?c = Some item" using len by simp
  have u2: "\<And>i. i \<noteq> ?c \<Longrightarrow> ?T' ! i = T ! i" by simp
  have u3: "\<And>i. (?T' ! i = None) = (T ! i = None)"
  proof -
    fix i show "(?T' ! i = None) = (T ! i = None)"
      using u1 u2 [of i] y(1) by (cases "i = ?c") simp_all
  qed
  txt \<open>If the evicted item has the key, the key sat in a visited slot, with the value \<open>v\<close>,
    and the item in hand was another one.\<close>
  have yk: "fst y = k \<Longrightarrow> fst item \<noteq> k \<and> snd y = v \<and>
              (\<forall>j<q. (ideal + j) mod cap \<noteq> ?c \<longrightarrow> \<not> liveMatch (T ! ((ideal + j) mod cap)) k)"
  proof -
    assume yk: "fst y = k"
    then have lm: "liveMatch (T ! ?c) k" using y by (simp add: liveMatch_Some)
    with fresh obtain j' where j': "j' < q" "(ideal + j') mod cap = ?c" by blast
    have nk: "fst item \<noteq> k"
    proof
      assume "fst item = k"
      with ka j'(1) have "\<not> liveMatch (T ! ((ideal + j') mod cap)) k" by blast
      with lm j'(2) show False by simp
    qed
    with kb obtain l where l: "l < q" "holds (T ! ((ideal + l) mod cap)) k v"
      "\<forall>j<q. (ideal + j) mod cap \<noteq> (ideal + l) mod cap \<longrightarrow>
                \<not> liveMatch (T ! ((ideal + j) mod cap)) k" by blast
    have cl: "(ideal + l) mod cap = ?c"
    proof (rule ccontr)
      assume "(ideal + l) mod cap \<noteq> ?c"
      with l(3) j' have "\<not> liveMatch (T ! ((ideal + j') mod cap)) k" by metis
      with lm j'(2) show False by simp
    qed
    with l(2) y(1) have "y = (k, v)" by (simp add: holds_def)
    with nk l(3) cl show ?thesis by simp
  qed
  have v1': "\<forall>j<q + 1. \<not> available (?T' ! ((ideal + j) mod cap))"
  proof (intro allI impI)
    fix j assume j: "j < q + 1"
    show "\<not> available (?T' ! ((ideal + j) mod cap))"
    proof (cases "(ideal + j) mod cap = ?c")
      case True
      with u1 v2 show ?thesis by (simp add: available_Some)
    next
      case False
      with j have "j < q" by (cases "j = q") simp_all
      with v1 u2 [OF False] show ?thesis by simp
    qed
  qed
  have z': "\<forall>j<MAX_PROBE_DISTANCE.
          (\<forall>j'<j. ?T' ! ((ideal + j') mod cap) \<noteq> None) \<longrightarrow>
          (\<forall>j'<q + 1. (ideal + j') mod cap \<noteq> (ideal + j) mod cap) \<longrightarrow>
          \<not> liveMatch (?T' ! ((ideal + j) mod cap)) k"
  proof (intro allI impI)
    fix j assume j: "j < MAX_PROBE_DISTANCE"
      and pre: "\<forall>j'<j. ?T' ! ((ideal + j') mod cap) \<noteq> None"
      and unv: "\<forall>j'<q + 1. (ideal + j') mod cap \<noteq> (ideal + j) mod cap"
    from unv have ne: "(ideal + j) mod cap \<noteq> ?c" by (metis less_add_one)
    from unv have unv': "\<forall>j'<q. (ideal + j') mod cap \<noteq> (ideal + j) mod cap" by simp
    from pre have "\<forall>j'<j. T ! ((ideal + j') mod cap) \<noteq> None" by (simp only: u3) 
    with z j unv' have "\<not> liveMatch (T ! ((ideal + j) mod cap)) k" by blast
    with u2 [OF ne] show "\<not> liveMatch (?T' ! ((ideal + j) mod cap)) k" by simp
  qed
  have ka': "fst y = k \<longrightarrow> (\<forall>j<q + 1. \<not> liveMatch (?T' ! ((ideal + j) mod cap)) k)"
  proof (intro allI impI)
    fix j assume "fst y = k" and j: "j < q + 1"
    note f = yk [OF \<open>fst y = k\<close>]
    show "\<not> liveMatch (?T' ! ((ideal + j) mod cap)) k"
    proof (cases "(ideal + j) mod cap = ?c")
      case True
      with u1 f show ?thesis by (simp add: liveMatch_Some)
    next
      case False
      with j have "j < q" by (cases "j = q") simp_all
      with f False u2 [OF False] show ?thesis by simp
    qed
  qed
  have kb': "fst y \<noteq> k \<longrightarrow>
         (\<exists>l<q + 1. holds (?T' ! ((ideal + l) mod cap)) k v \<and>
            (\<forall>j<q + 1. (ideal + j) mod cap \<noteq> (ideal + l) mod cap \<longrightarrow>
                \<not> liveMatch (?T' ! ((ideal + j) mod cap)) k))"
  proof
    assume nyk: "fst y \<noteq> k"
    show "\<exists>l<q + 1. holds (?T' ! ((ideal + l) mod cap)) k v \<and>
            (\<forall>j<q + 1. (ideal + j) mod cap \<noteq> (ideal + l) mod cap \<longrightarrow>
                \<not> liveMatch (?T' ! ((ideal + j) mod cap)) k)"
    proof (cases "fst item = k")
      case True
      with v3 have "item = (k, v)" by (simp add: prod_eq_iff)
      with u1 have h: "holds (?T' ! ?c) k v" by (simp add: holds_def)
      have "\<forall>j<q + 1. (ideal + j) mod cap \<noteq> ?c \<longrightarrow>
                \<not> liveMatch (?T' ! ((ideal + j) mod cap)) k"
      proof (intro allI impI)
        fix j assume j: "j < q + 1" and ne: "(ideal + j) mod cap \<noteq> ?c"
        then have "j < q" by (cases "j = q") simp_all
        with ka True have "\<not> liveMatch (T ! ((ideal + j) mod cap)) k" by blast
        with u2 [OF ne] show "\<not> liveMatch (?T' ! ((ideal + j) mod cap)) k" by simp
      qed
      with h show ?thesis by (metis less_add_one)
    next
      case False
      with kb obtain l where l: "l < q" "holds (T ! ((ideal + l) mod cap)) k v"
        "\<forall>j<q. (ideal + j) mod cap \<noteq> (ideal + l) mod cap \<longrightarrow>
                \<not> liveMatch (T ! ((ideal + j) mod cap)) k" by blast
      have cl: "(ideal + l) mod cap \<noteq> ?c"
        using l(2) y(1) nyk by (auto simp: holds_def)
      then have h: "holds (?T' ! ((ideal + l) mod cap)) k v" using l(2) by simp
      have "\<forall>j<q + 1. (ideal + j) mod cap \<noteq> (ideal + l) mod cap \<longrightarrow>
                \<not> liveMatch (?T' ! ((ideal + j) mod cap)) k"
      proof (intro allI impI)
        fix j assume j: "j < q + 1" and ne: "(ideal + j) mod cap \<noteq> (ideal + l) mod cap"
        show "\<not> liveMatch (?T' ! ((ideal + j) mod cap)) k"
        proof (cases "(ideal + j) mod cap = ?c")
          case True
          with u1 False show ?thesis by (simp add: liveMatch_Some)
        next
          case nc: False
          with j have "j < q" by (cases "j = q") simp_all
          with l(3) ne have "\<not> liveMatch (T ! ((ideal + j) mod cap)) k" by blast
          with u2 [OF nc] show ?thesis by simp
        qed
      qed
      with h l(1) show ?thesis by (metis less_SucI Suc_eq_plus1)
    qed
  qed
  have v3': "fst y = k \<longrightarrow> snd y = v" using yk by blast
  show ?thesis
    unfolding rhKey_def y(1) option.sel
    using v1' y(2) v3' z' ka' kb' by blast
qed

lemma rhKey_place:
  assumes R: "rhKey T cap ideal k v item q" and q: "q < MAX_PROBE_DISTANCE"
    and av: "available (T ! ((ideal + q) mod cap))"
    and len: "(ideal + q) mod cap < length T"
    and kT: "k \<noteq> TOMBSTONE"
  shows "robinhood_scan (T[(ideal + q) mod cap := Some item]) cap ideal k 0 = Some v"
proof -
  let ?c = "(ideal + q) mod cap"
  let ?T' = "T[?c := Some item]"
  from R have v1: "\<forall>j<q. \<not> available (T ! ((ideal + j) mod cap))"
    and v3: "fst item = k \<longrightarrow> snd item = v"
    and ka: "fst item = k \<longrightarrow> (\<forall>j<q. \<not> liveMatch (T ! ((ideal + j) mod cap)) k)"
    and kb: "fst item \<noteq> k \<longrightarrow>
         (\<exists>l<q. holds (T ! ((ideal + l) mod cap)) k v \<and>
            (\<forall>j<q. (ideal + j) mod cap \<noteq> (ideal + l) mod cap \<longrightarrow>
                \<not> liveMatch (T ! ((ideal + j) mod cap)) k))"
    unfolding rhKey_def by blast+
  have u1: "?T' ! ?c = Some item" using len by simp
  have unv: "\<And>j. j < q \<Longrightarrow> (ideal + j) mod cap \<noteq> ?c"
    using v1 av by metis
  have same: "\<And>j. j < q \<Longrightarrow> ?T' ! ((ideal + j) mod cap) = T ! ((ideal + j) mod cap)"
    using unv by (metis nth_list_update_neq)
  have nn: "\<And>j. j < q \<Longrightarrow> ?T' ! ((ideal + j) mod cap) \<noteq> None"
    using same v1 by (metis available_None)
  show ?thesis
  proof (cases "fst item = k")
    case True
    with v3 have item: "item = (k, v)" by (simp add: prod_eq_iff)
    show ?thesis
    proof (rule robinhood_scan_found [OF q])
      show "0 \<le> q" by simp
      show "\<forall>j. 0 \<le> j \<and> j \<le> q \<longrightarrow> ?T' ! ((ideal + j) mod cap) \<noteq> None"
        using nn u1 by (auto simp: le_less)
      show "liveMatch (?T' ! ?c) k" using u1 item kT by (simp add: liveMatch_Some)
      show "\<forall>j. 0 \<le> j \<and> j \<le> q \<longrightarrow> liveMatch (?T' ! ((ideal + j) mod cap)) k \<longrightarrow>
               snd (the (?T' ! ((ideal + j) mod cap))) = v"
      proof (intro allI impI)
        fix j assume j: "0 \<le> j \<and> j \<le> q" and lm: "liveMatch (?T' ! ((ideal + j) mod cap)) k"
        show "snd (the (?T' ! ((ideal + j) mod cap))) = v"
        proof (cases "j = q")
          case True with u1 item show ?thesis by simp
        next
          case False
          with j have "j < q" by simp
          with ka True same lm show ?thesis by simp
        qed
      qed
    qed
  next
    case False
    with kb obtain l where l: "l < q" "holds (T ! ((ideal + l) mod cap)) k v"
      "\<forall>j<q. (ideal + j) mod cap \<noteq> (ideal + l) mod cap \<longrightarrow>
                \<not> liveMatch (T ! ((ideal + j) mod cap)) k" by blast
    from l(1) q have lq: "l < MAX_PROBE_DISTANCE" by simp
    show ?thesis
    proof (rule robinhood_scan_found [OF lq])
      show "0 \<le> l" by simp
      show "\<forall>j. 0 \<le> j \<and> j \<le> l \<longrightarrow> ?T' ! ((ideal + j) mod cap) \<noteq> None"
        using nn l(1) by simp
      show "liveMatch (?T' ! ((ideal + l) mod cap)) k"
        using same [OF l(1)] holds_liveMatch [OF kT l(2)] by simp
      show "\<forall>j. 0 \<le> j \<and> j \<le> l \<longrightarrow> liveMatch (?T' ! ((ideal + j) mod cap)) k \<longrightarrow>
               snd (the (?T' ! ((ideal + j) mod cap))) = v"
      proof (intro allI impI)
        fix j assume j: "0 \<le> j \<and> j \<le> l" and lm: "liveMatch (?T' ! ((ideal + j) mod cap)) k"
        from j l(1) have jq: "j < q" by simp
        with lm same have "liveMatch (T ! ((ideal + j) mod cap)) k" by simp
        with l(3) jq have "(ideal + j) mod cap = (ideal + l) mod cap" by blast
        with l(2) same [OF jq] show "snd (the (?T' ! ((ideal + j) mod cap))) = v"
          by (simp add: holds_def)
      qed
    qed
  qed
qed

lemma rhKey_fail:
  assumes R: "rhKey T cap ideal k v item q" and q: "\<not> q < MAX_PROBE_DISTANCE"
  shows "robinhood_scan T cap ideal k 0 = None \<or> robinhood_scan T cap ideal k 0 = Some v"
proof (rule robinhood_scan_value, intro allI impI)
  fix j assume j: "j < MAX_PROBE_DISTANCE" and lm: "liveMatch (T ! ((ideal + j) mod cap)) k"
  from j q have jq: "j < q" by simp
  from R have ka: "fst item = k \<longrightarrow> (\<forall>j<q. \<not> liveMatch (T ! ((ideal + j) mod cap)) k)"
    and kb: "fst item \<noteq> k \<longrightarrow>
         (\<exists>l<q. holds (T ! ((ideal + l) mod cap)) k v \<and>
            (\<forall>j<q. (ideal + j) mod cap \<noteq> (ideal + l) mod cap \<longrightarrow>
                \<not> liveMatch (T ! ((ideal + j) mod cap)) k))"
    unfolding rhKey_def by blast+
  from ka jq lm have "fst item \<noteq> k" by blast
  with kb obtain l where l: "holds (T ! ((ideal + l) mod cap)) k v"
      "\<forall>j<q. (ideal + j) mod cap \<noteq> (ideal + l) mod cap \<longrightarrow>
                \<not> liveMatch (T ! ((ideal + j) mod cap)) k" by blast
  with jq lm have "(ideal + j) mod cap = (ideal + l) mod cap" by blast
  with l(1) show "snd (the (T ! ((ideal + j) mod cap))) = v" by (simp add: holds_def)
qed

lemma frame_refl [simp]: "frame s s"
  by (simp add: frame_def)

lemma cuckoo_insert_loop_frame:
  assumes run: "cuckoo_insert_loop H s item e = (b, s')"
  shows "frame s s' \<and> numElements s' = numElements s + (if b then 1 else 0)"
  by (rule cuckoo_insert_loop_rule [OF run,
        where I = "\<lambda>s0 item. frame s s0 \<and> numElements s0 = numElements s"
          and Q = "\<lambda>b s'. frame s s' \<and> numElements s' = numElements s + (if b then 1 else 0)"])
     (simp_all add: frame_def)

lemma robinhood_insert_loop_frame:
  assumes run: "robinhood_insert_loop s item ideal cd probe = (b, s')"
  shows "frame s s' \<and> numElements s' = numElements s + (if b then 1 else 0)"
  by (rule robinhood_insert_loop_rule [OF run,
        where I = "\<lambda>s0 item cd probe. frame s s0 \<and> numElements s0 = numElements s"
          and Q = "\<lambda>b s'. frame s s' \<and> numElements s' = numElements s + (if b then 1 else 0)"])
     (simp_all add: frame_def)

lemma robinhood_insert_post:
  assumes run: "robinhood_insert_loop s (k, v) ideal 0 0 = (b, s')"
    and cap: "0 < capacity s"
    and kT: "k \<noteq> TOMBSTONE"
    and len: "length (table s) = capacity s"
    and none: "robinhood_scan (table s) (capacity s) ideal k 0 = None"
  shows "scanOk k v b (robinhood_scan (table s') (capacity s) ideal k 0)"
proof (rule robinhood_insert_loop_rule [OF run,
        where I = "\<lambda>s0 item cd q. capacity s0 = capacity s \<and> length (table s0) = capacity s \<and>
                      rhKey (table s0) (capacity s) ideal k v item q"
          and Q = "\<lambda>b s'. scanOk k v b (robinhood_scan (table s') (capacity s) ideal k 0)"])
  show "capacity s = capacity s \<and> length (table s) = capacity s \<and>
        rhKey (table s) (capacity s) ideal k v (k, v) 0"
    using len rhKey_init [OF none kT] by simp
next
  fix s0 item cd q
  assume I: "capacity s0 = capacity s \<and> length (table s0) = capacity s \<and>
             rhKey (table s0) (capacity s) ideal k v item q"
    and q: "\<not> q < MAX_PROBE_DISTANCE"
  from I have R: "rhKey (table s0) (capacity s) ideal k v item q" by blast
  from rhKey_fail [OF R q] show "scanOk k v False (robinhood_scan (table s0) (capacity s) ideal k 0)"
    by (simp add: scanOk_def)
next
  fix s0 item cd q
  assume I: "capacity s0 = capacity s \<and> length (table s0) = capacity s \<and>
             rhKey (table s0) (capacity s) ideal k v item q"
    and q: "q < MAX_PROBE_DISTANCE"
    and av: "available (table s0 ! ((ideal + q) mod capacity s0))"
  from I have R: "rhKey (table s0) (capacity s) ideal k v item q"
    and c: "capacity s0 = capacity s" and l: "length (table s0) = capacity s" by blast+
  have lt: "(ideal + q) mod capacity s < length (table s0)" using l cap by simp
  from rhKey_place [OF R q av [unfolded c] lt kT]
  show "scanOk k v True (robinhood_scan (table
          (s0\<lparr> totalProbes := totalProbes s0 + 1,
                table := (table s0)[(ideal + q) mod capacity s0 := Some item],
                probeDistances := (probeDistances s0)[(ideal + q) mod capacity s0 := cd],
                numElements := numElements s0 + 1 \<rparr>)) (capacity s) ideal k 0)"
    by (simp add: scanOk_def c)
next
  fix s0 item cd q
  assume I: "capacity s0 = capacity s \<and> length (table s0) = capacity s \<and>
             rhKey (table s0) (capacity s) ideal k v item q"
    and q: "q < MAX_PROBE_DISTANCE"
    and na: "\<not> available (table s0 ! ((ideal + q) mod capacity s0))"
  from I have R: "rhKey (table s0) (capacity s) ideal k v item q"
    and c: "capacity s0 = capacity s" and l: "length (table s0) = capacity s" by blast+
  have lt: "(ideal + q) mod capacity s < length (table s0)" using l cap by simp
  from rhKey_swap [OF R q na [unfolded c] lt]
  show "capacity (s0\<lparr> totalProbes := totalProbes s0 + 1,
               table := (table s0)[(ideal + q) mod capacity s0 := Some item],
               probeDistances := (probeDistances s0)[(ideal + q) mod capacity s0 := cd] \<rparr>) = capacity s \<and>
        length (table (s0\<lparr> totalProbes := totalProbes s0 + 1,
               table := (table s0)[(ideal + q) mod capacity s0 := Some item],
               probeDistances := (probeDistances s0)[(ideal + q) mod capacity s0 := cd] \<rparr>)) = capacity s \<and>
        rhKey (table (s0\<lparr> totalProbes := totalProbes s0 + 1,
               table := (table s0)[(ideal + q) mod capacity s0 := Some item],
               probeDistances := (probeDistances s0)[(ideal + q) mod capacity s0 := cd] \<rparr>))
          (capacity s) ideal k v (the (table s0 ! ((ideal + q) mod capacity s0))) (q + 1)"
    using c l by simp
next
  fix s0 item cd q
  assume I: "capacity s0 = capacity s \<and> length (table s0) = capacity s \<and>
             rhKey (table s0) (capacity s) ideal k v item q"
    and q: "q < MAX_PROBE_DISTANCE"
    and na: "\<not> available (table s0 ! ((ideal + q) mod capacity s0))"
  from I have R: "rhKey (table s0) (capacity s) ideal k v item q"
    and c: "capacity s0 = capacity s" and l: "length (table s0) = capacity s" by blast+
  from rhKey_skip [OF R q na [unfolded c]]
  show "capacity (s0\<lparr> totalProbes := totalProbes s0 + 1, totalCollisions := totalCollisions s0 + 1 \<rparr>) = capacity s \<and>
        length (table (s0\<lparr> totalProbes := totalProbes s0 + 1, totalCollisions := totalCollisions s0 + 1 \<rparr>)) = capacity s \<and>
        rhKey (table (s0\<lparr> totalProbes := totalProbes s0 + 1, totalCollisions := totalCollisions s0 + 1 \<rparr>))
          (capacity s) ideal k v item (q + 1)"
    using c l by simp
qed

lemma findEmptySlot_loop_result:
  assumes "en \<le> cap"
  shows "(findEmptySlot_loop T cap i en = cap \<and> (\<forall>j. i \<le> j \<and> j < en \<longrightarrow> \<not> available (T ! j))) \<or>
         (i \<le> findEmptySlot_loop T cap i en \<and> findEmptySlot_loop T cap i en < en \<and>
          available (T ! findEmptySlot_loop T cap i en))"
proof (induction "en - i" arbitrary: i rule: less_induct)
  case less
  show ?case
  proof (cases "i < en")
    case False
    then have "findEmptySlot_loop T cap i en = cap"
      by (subst findEmptySlot_loop.simps) simp
    with False show ?thesis by auto
  next
    case True
    show ?thesis
    proof (cases "available (T ! i)")
      case av: True
      with True have "findEmptySlot_loop T cap i en = i"
        by (subst findEmptySlot_loop.simps) simp
      with av True show ?thesis by simp
    next
      case False
      with True have eq: "findEmptySlot_loop T cap i en = findEmptySlot_loop T cap (i + 1) en"
        by (subst findEmptySlot_loop.simps) simp
      have "en - (i + 1) < en - i" using True by simp
      from less.hyps [OF this]
      consider "findEmptySlot_loop T cap (i + 1) en = cap"
          "\<forall>j. i + 1 \<le> j \<and> j < en \<longrightarrow> \<not> available (T ! j)"
        | "i + 1 \<le> findEmptySlot_loop T cap (i + 1) en"
          "findEmptySlot_loop T cap (i + 1) en < en"
          "available (T ! findEmptySlot_loop T cap (i + 1) en)"
        by blast
      then show ?thesis
      proof cases
        case 1
        have "\<forall>j. i \<le> j \<and> j < en \<longrightarrow> \<not> available (T ! j)"
        proof (intro allI impI)
          fix j assume j: "i \<le> j \<and> j < en"
          show "\<not> available (T ! j)"
          proof (cases "j = i")
            case True with False show ?thesis by simp
          next
            case False with j 1(2) show ?thesis by simp
          qed
        qed
        with 1(1) show ?thesis unfolding eq by blast
      next
        case 2
        then show ?thesis unfolding eq by simp
      qed
    qed
  qed
qed

lemma findEmptySlot_loop_full:
  assumes "\<forall>j. i \<le> j \<and> j < en \<longrightarrow> \<not> available (T ! j)"
  shows "findEmptySlot_loop T cap i en = cap"
  using assms
proof (induction "en - i" arbitrary: i rule: less_induct)
  case less
  show ?case
  proof (cases "i < en")
    case False
    then show ?thesis by (subst findEmptySlot_loop.simps) simp
  next
    case True
    have "en - (i + 1) < en - i" using True by simp
    from less.hyps [OF this] less.prems True show ?thesis
      by (subst findEmptySlot_loop.simps) simp
  qed
qed

lemma hopscotch_scan_None_iff:
  "hopscotch_scan T w st en k i = None \<longleftrightarrow> (\<forall>j\<ge>i. \<not> hopHit T w st en k j)"
proof (induction "HOP_RANGE - i" arbitrary: i rule: less_induct)
  case less
  show ?case
  proof (cases "i < HOP_RANGE \<and> st + i < en")
    case False
    then have "hopscotch_scan T w st en k i = None"
      by (subst hopscotch_scan.simps) auto
    moreover from False have "\<forall>j\<ge>i. \<not> hopHit T w st en k j"
      by (auto simp: hopHit_def)
    ultimately show ?thesis by simp
  next
    case True
    then have m: "HOP_RANGE - (i + 1) < HOP_RANGE - i" by arith
    show ?thesis
    proof (cases "w AND push_bit i 1 \<noteq> 0 \<and> liveMatch (T ! (st + i)) k")
      case hit: True
      with True have "hopscotch_scan T w st en k i \<noteq> None"
        by (subst hopscotch_scan.simps) auto
      moreover from hit True have "hopHit T w st en k i" by (simp add: hopHit_def)
      ultimately show ?thesis by blast
    next
      case False
      with True have eq: "hopscotch_scan T w st en k i = hopscotch_scan T w st en k (i + 1)"
        by (subst hopscotch_scan.simps) auto
      from False have ni: "\<not> hopHit T w st en k i" by (auto simp: hopHit_def)
      have "(\<forall>j\<ge>i. \<not> hopHit T w st en k j) = (\<forall>j\<ge>i + 1. \<not> hopHit T w st en k j)"
      proof
        assume "\<forall>j\<ge>i. \<not> hopHit T w st en k j"
        then show "\<forall>j\<ge>i + 1. \<not> hopHit T w st en k j" by simp
      next
        assume a: "\<forall>j\<ge>i + 1. \<not> hopHit T w st en k j"
        show "\<forall>j\<ge>i. \<not> hopHit T w st en k j"
        proof (intro allI impI)
          fix j assume "i \<le> j"
          then show "\<not> hopHit T w st en k j" using a ni by (cases "j = i") simp_all
        qed
      qed
      with less.hyps [OF m] eq show ?thesis by simp
    qed
  qed
qed

lemma hopscotch_scan_SomeD:
  "hopscotch_scan T w st en k i = Some x \<Longrightarrow>
     \<exists>j\<ge>i. hopHit T w st en k j \<and> x = snd (the (T ! (st + j)))"
proof (induction "HOP_RANGE - i" arbitrary: i rule: less_induct)
  case less
  show ?case
  proof (cases "i < HOP_RANGE \<and> st + i < en")
    case False
    with less.prems show ?thesis by (subst (asm) hopscotch_scan.simps) auto
  next
    case True
    then have m: "HOP_RANGE - (i + 1) < HOP_RANGE - i" by arith
    show ?thesis
    proof (cases "w AND push_bit i 1 \<noteq> 0 \<and> liveMatch (T ! (st + i)) k")
      case hit: True
      with True less.prems have "x = snd (the (T ! (st + i)))"
        by (subst (asm) hopscotch_scan.simps) auto
      moreover from hit True have "hopHit T w st en k i" by (simp add: hopHit_def)
      ultimately show ?thesis by blast
    next
      case False
      with True less.prems have "hopscotch_scan T w st en k (i + 1) = Some x"
        by (subst (asm) hopscotch_scan.simps) auto
      from less.hyps [OF m this] obtain j where "i + 1 \<le> j" "hopHit T w st en k j"
        "x = snd (the (T ! (st + j)))" by blast
      then show ?thesis by (intro exI [of _ j]) simp
    qed
  qed
qed

lemma hopscotch_scan_cong:
  assumes "\<forall>j. st \<le> j \<and> j < en \<longrightarrow> T' ! j = T ! j"
  shows "hopscotch_scan T' w st en k i = hopscotch_scan T w st en k i"
proof (induction "HOP_RANGE - i" arbitrary: i rule: less_induct)
  case less
  show ?case
  proof (cases "i < HOP_RANGE \<and> st + i < en")
    case False
    then show ?thesis by (subst (1 2) hopscotch_scan.simps) auto
  next
    case True
    then have m: "HOP_RANGE - (i + 1) < HOP_RANGE - i" by arith
    from True assms have "T' ! (st + i) = T ! (st + i)" by simp
    with less.hyps [OF m] True show ?thesis
      by (subst (1 2) hopscotch_scan.simps) auto
  qed
qed

lemma hop_bit_set:
  fixes w :: "32 word"
  assumes "b < 32" "j < 32"
  shows "((w OR push_bit b 1) AND push_bit j 1 \<noteq> 0) = (w AND push_bit j 1 \<noteq> 0 \<or> j = b)"
  unfolding bit_iff_and_push_bit_not_eq_0 [symmetric]
  using assms by (auto simp: bit_simps)

lemma hop_bit_clear:
  fixes w :: "32 word"
  assumes "b < 32" "j < 32"
  shows "((w AND NOT (push_bit b 1)) AND push_bit j 1 \<noteq> 0) = (w AND push_bit j 1 \<noteq> 0 \<and> j \<noteq> b)"
  unfolding bit_iff_and_push_bit_not_eq_0 [symmetric]
  using assms by (auto simp: bit_simps)

lemma neighborhood_same:
  assumes "getNeighborhoodStart a \<le> x" "x < getNeighborhoodStart a + HOP_RANGE"
  shows "getNeighborhoodStart x = getNeighborhoodStart a"
proof -
  have "x div 32 = a div 32"
    using assms unfolding getNeighborhoodStart_def HOP_RANGE_def
    by (intro div_nat_eqI) (simp_all add: mult.commute)
  then show ?thesis by (simp add: getNeighborhoodStart_def HOP_RANGE_def)
qed

lemma neighborhood_bounds:
  "getNeighborhoodStart a \<le> a" "a < getNeighborhoodStart a + HOP_RANGE"
  unfolding getNeighborhoodStart_def HOP_RANGE_def by presburger+

lemma updateHopInfo_frame [simp]:
  "table (updateHopInfo s b t a) = table s"
  "table2 (updateHopInfo s b t a) = table2 s"
  "capacity (updateHopInfo s b t a) = capacity s"
  "stash (updateHopInfo s b t a) = stash s"
  "currentMode (updateHopInfo s b t a) = currentMode s"
  "numElements (updateHopInfo s b t a) = numElements s"
  "probeDistances (updateHopInfo s b t a) = probeDistances s"
  "totalInsertions (updateHopInfo s b t a) = totalInsertions s"
  "totalCollisions (updateHopInfo s b t a) = totalCollisions s"
  "totalProbes (updateHopInfo s b t a) = totalProbes s"
  "length (hopInfo (updateHopInfo s b t a)) = length (hopInfo s)"
  by (simp_all add: updateHopInfo_def Let_def)

lemma updateHopInfo_other: "i \<noteq> b \<Longrightarrow> hopInfo (updateHopInfo s b t a) ! i = hopInfo s ! i"
  by (simp add: updateHopInfo_def Let_def)

lemma updateHopInfo_add:
  "b < length (hopInfo s) \<Longrightarrow>
   hopInfo (updateHopInfo s b t True) ! b = hopInfo s ! b OR push_bit (t - getNeighborhoodStart b) 1"
  by (simp add: updateHopInfo_def Let_def)

lemma neighborhood_end_le: "getNeighborhoodEnd s a \<le> capacity s"
  "getNeighborhoodEnd s a \<le> getNeighborhoodStart a + HOP_RANGE"
  by (simp_all add: getNeighborhoodEnd_def)

lemma displace_loop_block:
  assumes full: "\<forall>j. getNeighborhoodStart base \<le> j \<and> j < getNeighborhoodEnd s base \<longrightarrow>
                    \<not> available (table s ! j)"
    and run: "displace_loop H s index d = (bd, sd)"
  shows "frame s sd \<and> numElements sd = numElements s \<and>
         (\<forall>j. getNeighborhoodStart base \<le> j \<and> j < getNeighborhoodEnd s base \<longrightarrow>
              table sd ! j = table s ! j) \<and>
         hopInfo sd ! base = hopInfo s ! base"
  using run
proof (induction "Suc MAX_DISPLACEMENTS - d" arbitrary: d rule: less_induct)
  case less
  let ?st = "getNeighborhoodStart base" and ?en = "getNeighborhoodEnd s base"
  show ?case
  proof (cases "d \<le> MAX_DISPLACEMENTS")
    case False
    with less.prems have "sd = s"
      by (subst (asm) displace_loop.simps) simp
    then show ?thesis by simp
  next
    case le: True
    then have m: "Suc MAX_DISPLACEMENTS - (d + 1) < Suc MAX_DISPLACEMENTS - d" by simp
    define ch where "ch = (index + d) mod capacity s"
    define tb where "tb = hash H s (fst (the (table s ! ch)))"
    define ts where "ts = getNeighborhoodStart tb"
    define te where "te = getNeighborhoodEnd s tb"
    define emp where "emp = findEmptySlot s ts te"
    show ?thesis
    proof (cases "table s ! ch \<noteq> None \<and> \<not> isTombstone (table s ! ch) \<and> ts \<le> ch \<and> ch < te
                    \<and> emp \<noteq> capacity s")
      case False
      with less.prems le have "displace_loop H s index (d + 1) = (bd, sd)"
        by (subst (asm) displace_loop.simps)
           (auto simp: Let_def ch_def tb_def ts_def te_def emp_def split: if_splits)
      from less.hyps [OF m this] show ?thesis .
    next
      case True
      with less.prems le have sd: "sd = updateHopInfo
              (updateHopInfo (s\<lparr> table := (table s)[emp := table s ! ch, ch := None] \<rparr>) tb ch False)
              tb emp True"
        by (subst (asm) displace_loop.simps)
           (auto simp: Let_def ch_def tb_def ts_def te_def emp_def split: if_splits)
      have te_le: "te \<le> capacity s" "te \<le> ts + HOP_RANGE"
        unfolding te_def ts_def by (rule neighborhood_end_le)+
      from findEmptySlot_loop_result [OF te_le(1), of "table s" ts] True
      have emp: "ts \<le> emp" "emp < te" "available (table s ! emp)"
        unfolding emp_def findEmptySlot_def by auto
      have A: "\<not> (?st \<le> emp \<and> emp < ?en)" using full emp(3) by blast
      have B: "ts \<noteq> ?st"
      proof
        assume e: "ts = ?st"
        then have "te = ?en" unfolding te_def ts_def getNeighborhoodEnd_def by simp
        with e emp A show False by simp
      qed
      have C: "\<not> (?st \<le> ch \<and> ch < ?en)"
      proof
        assume a: "?st \<le> ch \<and> ch < ?en"
        with neighborhood_end_le(2) [of s base] have "ch < ?st + HOP_RANGE" by simp
        with a have "getNeighborhoodStart ch = ?st" by (intro neighborhood_same) simp_all
        moreover from True te_le(2) have "getNeighborhoodStart ch = ts"
          unfolding ts_def by (intro neighborhood_same) (simp_all add: ts_def)
        ultimately show False using B by simp
      qed
      have D: "base \<noteq> tb" using B unfolding ts_def by auto
      have tbl: "\<forall>j. ?st \<le> j \<and> j < ?en \<longrightarrow> table sd ! j = table s ! j"
      proof (intro allI impI)
        fix j assume j: "?st \<le> j \<and> j < ?en"
        with A C have "j \<noteq> emp" "j \<noteq> ch" by auto
        then show "table sd ! j = table s ! j" unfolding sd by simp
      qed
      have hop: "hopInfo sd ! base = hopInfo s ! base"
        unfolding sd using D by (simp add: updateHopInfo_other)
      have "frame s sd" "numElements sd = numElements s"
        unfolding sd frame_def by simp_all
      with tbl hop show ?thesis by blast
    qed
  qed
qed

lemma displace_loop_fail: "displace_loop H s index d = (False, sd) \<Longrightarrow> sd = s"
proof (induction "Suc MAX_DISPLACEMENTS - d" arbitrary: d rule: less_induct)
  case less
  show ?case
  proof (cases "d \<le> MAX_DISPLACEMENTS")
    case False
    with less.prems show ?thesis
      by (subst (asm) displace_loop.simps) simp
  next
    case le: True
    then have m: "Suc MAX_DISPLACEMENTS - (d + 1) < Suc MAX_DISPLACEMENTS - d" by simp
    from less.prems le have "displace_loop H s index (d + 1) = (False, sd)"
      by (subst (asm) displace_loop.simps) (auto simp: Let_def split: if_splits)
    from less.hyps [OF m this] show ?thesis .
  qed
qed

lemma hopscotch_insert_post:
  assumes run: "hopscotch_insert H s k v = (b, s')"
    and cap: "0 < capacity s" and kT: "k \<noteq> TOMBSTONE"
    and len: "length (table s) = capacity s" "length (hopInfo s) = capacity s"
    and none: "hopscotch_scan (table s) (hopInfo s ! hash H s k)
                 (getNeighborhoodStart (hash H s k)) (getNeighborhoodEnd s (hash H s k)) k 0 = None"
  shows "frame s s' \<and> numElements s' = numElements s + (if b then 1 else 0) \<and>
         scanOk k v b (hopscotch_scan (table s') (hopInfo s' ! hash H s k)
                 (getNeighborhoodStart (hash H s k)) (getNeighborhoodEnd s (hash H s k)) k 0)"
proof -
  define base where "base = hash H s k"
  define st where "st = getNeighborhoodStart base"
  define en where "en = getNeighborhoodEnd s base"
  define e where "e = findEmptySlot s st en"
  have base: "base < capacity s" unfolding base_def using cap by (rule hash_less)
  have en: "en \<le> capacity s" "en \<le> st + HOP_RANGE"
    unfolding en_def st_def by (rule neighborhood_end_le)+
  note none' = none [folded base_def, folded st_def en_def]
  from findEmptySlot_loop_result [OF en(1), of "table s" st]
  consider (full) "e = capacity s" "\<forall>j. st \<le> j \<and> j < en \<longrightarrow> \<not> available (table s ! j)"
    | (found) "st \<le> e" "e < en" "available (table s ! e)"
    unfolding e_def findEmptySlot_def by blast
  then have "frame s s' \<and> numElements s' = numElements s + (if b then 1 else 0) \<and>
         scanOk k v b (hopscotch_scan (table s') (hopInfo s' ! base) st en k 0)"
  proof cases
    case found
    then have ne: "e \<noteq> capacity s" using en(1) by simp
    with run have b: "b = True" and s': "s' = hopscotch_place s base e k v"
      unfolding hopscotch_insert_def
      by (simp_all add: Let_def base_def [symmetric] st_def [symmetric] en_def [symmetric]
            e_def [symmetric])
    let ?T' = "(table s)[e := Some (k, v)]"
    let ?w' = "hopInfo s ! base OR push_bit (e - st) 1"
    have t': "table s' = ?T'" unfolding s' hopscotch_place_def by (simp add: Let_def)
    have w': "hopInfo s' ! base = ?w'"
      unfolding s' hopscotch_place_def using base len(2)
      by (simp add: Let_def updateHopInfo_add st_def)
    have fr: "frame s s'" "numElements s' = numElements s + 1"
      unfolding s' hopscotch_place_def frame_def by (simp_all add: Let_def)
    have j0: "e - st < 32" "st + (e - st) = e"
      using found en(2) by (simp_all add: HOP_RANGE_def)
    have elt: "e < length (table s)" using found en(1) len(1) by simp
    have hit: "hopHit ?T' ?w' st en k (e - st)"
      unfolding hopHit_def using j0 found(2) elt kT
      by (simp add: hop_bit_set HOP_RANGE_def liveMatch_Some)
    then have "hopscotch_scan ?T' ?w' st en k 0 \<noteq> None"
      unfolding hopscotch_scan_None_iff by blast
    then obtain x where x: "hopscotch_scan ?T' ?w' st en k 0 = Some x" by blast
    from hopscotch_scan_SomeD [OF this] obtain j where
      j: "hopHit ?T' ?w' st en k j" "x = snd (the (?T' ! (st + j)))" by blast
    have "x = v"
    proof (cases "j = e - st")
      case True
      with j(2) j0(2) elt show ?thesis by simp
    next
      case False
      with found(1) have ne': "e \<noteq> st + j" by auto
      from j(1) have jl: "j < 32" by (simp add: hopHit_def HOP_RANGE_def)
      from j(1) False ne' hop_bit_set [OF j0(1) jl, of "hopInfo s ! base"]
      have "hopHit (table s) (hopInfo s ! base) st en k j"
        unfolding hopHit_def by simp
      with none' show ?thesis unfolding hopscotch_scan_None_iff by blast
    qed
    with x fr b show ?thesis unfolding t' w' scanOk_def by simp
  next
    case full
    obtain bd sd where d: "displace H s base = (bd, sd)" by (cases "displace H s base")
    from full(2) have full': "\<forall>j. getNeighborhoodStart base \<le> j \<and> j < getNeighborhoodEnd s base \<longrightarrow>
                    \<not> available (table s ! j)"
      unfolding st_def en_def .
    from displace_loop_block [OF full' d [unfolded displace_def]]
    have fr: "frame s sd" "numElements sd = numElements s"
      and same: "\<forall>j. st \<le> j \<and> j < en \<longrightarrow> table sd ! j = table s ! j"
      and hop: "hopInfo sd ! base = hopInfo s ! base"
      unfolding st_def en_def by blast+
    have "\<forall>j. st \<le> j \<and> j < en \<longrightarrow> \<not> available (table sd ! j)"
      using same full(2) by simp
    then have fe: "findEmptySlot sd st en = capacity sd"
      unfolding findEmptySlot_def by (rule findEmptySlot_loop_full)
    have e': "findEmptySlot s (getNeighborhoodStart base) (getNeighborhoodEnd s base) = capacity s"
      using full(1) unfolding e_def st_def en_def .
    have fe': "findEmptySlot sd (getNeighborhoodStart base) (getNeighborhoodEnd s base) = capacity sd"
      using fe unfolding st_def en_def .
    from run d e' fe' have b: "b = False"
      and s': "s' = (if bd then sd else sd\<lparr> totalCollisions := totalCollisions sd + 1 \<rparr>)"
      unfolding hopscotch_insert_def base_def [symmetric]
      by (auto simp: Let_def split: bool.splits)
    have t': "table s' = table sd" and w': "hopInfo s' = hopInfo sd"
      unfolding s' by simp_all
    have fr': "frame s s'" "numElements s' = numElements s"
      using fr unfolding s' frame_def by simp_all
    have "hopscotch_scan (table sd) (hopInfo s ! base) st en k 0 = None"
      using hopscotch_scan_cong [OF same] none' by simp
    with fr' b show ?thesis unfolding t' w' hop scanOk_def by simp
  qed
  then show ?thesis unfolding base_def st_def en_def .
qed

lemma displace_loop_frame:
  "displace_loop H s index d = (bd, sd) \<Longrightarrow> frame s sd \<and> numElements sd = numElements s"
proof (induction "Suc MAX_DISPLACEMENTS - d" arbitrary: d rule: less_induct)
  case less
  show ?case
  proof (cases "d \<le> MAX_DISPLACEMENTS")
    case False
    with less.prems have "sd = s"
      by (subst (asm) displace_loop.simps) simp
    then show ?thesis by simp
  next
    case le: True
    then have m: "Suc MAX_DISPLACEMENTS - (d + 1) < Suc MAX_DISPLACEMENTS - d" by simp
    define ch where "ch = (index + d) mod capacity s"
    define tb where "tb = hash H s (fst (the (table s ! ch)))"
    define ts where "ts = getNeighborhoodStart tb"
    define te where "te = getNeighborhoodEnd s tb"
    define emp where "emp = findEmptySlot s ts te"
    show ?thesis
    proof (cases "table s ! ch \<noteq> None \<and> \<not> isTombstone (table s ! ch) \<and> ts \<le> ch \<and> ch < te
                    \<and> emp \<noteq> capacity s")
      case False
      with less.prems le have "displace_loop H s index (d + 1) = (bd, sd)"
        by (subst (asm) displace_loop.simps)
           (auto simp: Let_def ch_def tb_def ts_def te_def emp_def split: if_splits)
      from less.hyps [OF m this] show ?thesis .
    next
      case True
      with less.prems le have sd: "sd = updateHopInfo
              (updateHopInfo (s\<lparr> table := (table s)[emp := table s ! ch, ch := None] \<rparr>) tb ch False)
              tb emp True"
        by (subst (asm) displace_loop.simps)
           (auto simp: Let_def ch_def tb_def ts_def te_def emp_def split: if_splits)
      show ?thesis unfolding sd frame_def by simp
    qed
  qed
qed

lemma hopscotch_place_frame:
  "frame s (hopscotch_place s base e k v)"
  "numElements (hopscotch_place s base e k v) = numElements s + 1"
  unfolding hopscotch_place_def frame_def by (simp_all add: Let_def)

lemma frame_trans: "frame s s1 \<Longrightarrow> frame s1 s2 \<Longrightarrow> frame s s2"
  by (simp add: frame_def)

lemma hopscotch_insert_frame:
  assumes run: "hopscotch_insert H s k v = (b, s')"
  shows "frame s s' \<and> numElements s' = numElements s + (if b then 1 else 0)"
proof -
  obtain bd sd where d: "displace H s (hash H s k) = (bd, sd)"
    by (cases "displace H s (hash H s k)")
  note fd = displace_loop_frame [OF d [unfolded displace_def]]
  have f2: "frame s (hopscotch_place sd (hash H s k) e k v)"
     "numElements (hopscotch_place sd (hash H s k) e k v) = numElements s + 1" for e
    using fd frame_trans [OF _ hopscotch_place_frame(1)] hopscotch_place_frame(2) by auto
  have f3: "frame s (sd\<lparr> totalCollisions := totalCollisions sd + 1 \<rparr>)"
    using fd by (simp add: frame_def)
  from run d fd f2 f3 hopscotch_place_frame [of s] show ?thesis
    unfolding hopscotch_insert_def
    by (auto simp: Let_def split: if_splits bool.splits)
qed

lemma modeInsert_frame:
  assumes run: "modeInsert H s k v = (b, s')"
  shows "frame s s' \<and> numElements s' = numElements s + (if b then 1 else 0)"
proof (cases "currentMode s")
  case Cuckoo
  with run show ?thesis
    unfolding modeInsert_def cuckoo_insert_def by (simp add: cuckoo_insert_loop_frame)
next
  case Hopscotch
  with run show ?thesis
    unfolding modeInsert_def by (simp add: hopscotch_insert_frame)
next
  case RobinHood
  with run show ?thesis
    unfolding modeInsert_def robinhood_insert_def by (simp add: robinhood_insert_loop_frame)
qed

lemma liveMatch_keyOnlyAt:
  assumes "keyOnlyAt T h k v" "h < length T" "liveMatch (T ! h) k"
  shows "snd (the (T ! h)) = v"
proof -
  from assms(3) obtain p where p: "T ! h = Some p" "fst p = k"
    by (cases "T ! h") (auto simp: liveMatch_def)
  then have "T ! h = Some (k, snd p)" by (cases p) simp
  with assms(1,2) have "snd p = v" unfolding keyOnlyAt_def by blast
  with p show ?thesis by simp
qed

lemma cuckooPlaced_keyOnlyAt:
  assumes pl: "cuckooPlaced H s" and kT: "k \<noteq> TOMBSTONE"
    and len: "length (table s) = capacity s" "length (table2 s) = capacity s"
    and n1: "\<not> liveMatch (table s ! hash1 H s k) k"
    and n2: "\<not> liveMatch (table2 s ! hash2 H s k) k"
  shows "keyOnlyAt (table s) (hash1 H s k) k v" "keyOnlyAt (table2 s) (hash2 H s k) k v"
proof -
  show "keyOnlyAt (table s) (hash1 H s k) k v"
    unfolding keyOnlyAt_def
  proof (intro allI impI)
    fix i w assume i: "i < length (table s)" and e: "table s ! i = Some (k, w)"
    from pl i len(1) have "placedSlot (table s ! i) i (hash1 H s)"
      unfolding cuckooPlaced_def by simp
    with e kT have "hash1 H s k = i" by (simp add: placedSlot_def)
    with e n1 kT show "i = hash1 H s k \<and> w = v" by (simp add: liveMatch_Some)
  qed
  show "keyOnlyAt (table2 s) (hash2 H s k) k v"
    unfolding keyOnlyAt_def
  proof (intro allI impI)
    fix i w assume i: "i < length (table2 s)" and e: "table2 s ! i = Some (k, w)"
    from pl i len(2) have "placedSlot (table2 s ! i) i (hash2 H s)"
      unfolding cuckooPlaced_def by simp
    with e kT have "hash2 H s k = i" by (simp add: placedSlot_def)
    with e n2 kT show "i = hash2 H s k \<and> w = v" by (simp add: liveMatch_Some)
  qed
qed

lemma tableLookup_Cuckoo:
  "currentMode s = Cuckoo \<Longrightarrow>
   tableLookup H s k =
     (if liveMatch (table s ! hash1 H s k) k then Some (snd (the (table s ! hash1 H s k)))
      else if liveMatch (table2 s ! hash2 H s k) k then Some (snd (the (table2 s ! hash2 H s k)))
      else None)"
  by (simp add: tableLookup_def Let_def)

lemma tableLookup_Hopscotch:
  "currentMode s = Hopscotch \<Longrightarrow>
   tableLookup H s k =
     hopscotch_scan (table s) (hopInfo s ! hash H s k) (getNeighborhoodStart (hash H s k))
       (getNeighborhoodEnd s (hash H s k)) k 0"
  by (simp add: tableLookup_def Let_def)

lemma tableLookup_RobinHood:
  "currentMode s = RobinHood \<Longrightarrow>
   tableLookup H s k = robinhood_scan (table s) (capacity s) (hash H s k) k 0"
  by (simp add: tableLookup_def)

lemma getNeighborhoodEnd_cap_eq:
  "capacity s' = capacity s \<Longrightarrow> getNeighborhoodEnd s' = getNeighborhoodEnd s"
  by (simp add: getNeighborhoodEnd_def fun_eq_iff)

lemma modeInsert_post:
  assumes run: "modeInsert H s k v = (b, s')"
    and cap: "0 < capacity s" and kT: "k \<noteq> TOMBSTONE"
    and inv: "invariant H s"
    and none: "tableLookup H s k = None"
  shows "scanOk k v b (tableLookup H s' k)"
proof -
  from modeInsert_frame [OF run] have fr: "frame s s'" by blast
  then have c: "capacity s' = capacity s" and m: "currentMode s' = currentMode s"
    by (simp_all add: frame_def)
  note h = hash_cap_eq [OF c, of H] getNeighborhoodEnd_cap_eq [OF c]
  from inv have wf: "length (table s) = capacity s" "length (table2 s) = capacity s"
    "length (hopInfo s) = capacity s"
    by (simp_all add: invariant_def wellFormed_def)
  show ?thesis
  proof (cases "currentMode s")
    case Cuckoo
    with inv have pl: "cuckooPlaced H s" by (simp add: invariant_def)
    from none Cuckoo have n: "\<not> liveMatch (table s ! hash1 H s k) k"
      "\<not> liveMatch (table2 s ! hash2 H s k) k"
      by (simp_all add: tableLookup_Cuckoo split: if_splits)
    from run Cuckoo have r: "cuckoo_insert_loop H s (k, v) 0 = (b, s')"
      by (simp add: modeInsert_def cuckoo_insert_def)
    from cuckoo_insert_post [OF r cap kT wf(1,2) cuckooPlaced_keyOnlyAt [OF pl kT wf(1,2) n]]
    have post: "length (table s') = capacity s" "length (table2 s') = capacity s"
      "keyOnlyAt (table s') (hash1 H s k) k v" "keyOnlyAt (table2 s') (hash2 H s k) k v"
      "b \<longrightarrow> holds (table s' ! hash1 H s k) k v \<or> holds (table2 s' ! hash2 H s k) k v"
      unfolding cuckooPost_def by blast+
    have l: "hash1 H s k < length (table s')" "hash2 H s k < length (table2 s')"
      using post(1,2) cap by (simp_all add: hash1_less hash2_less)
    note v1 = liveMatch_keyOnlyAt [OF post(3) l(1)] and v2 = liveMatch_keyOnlyAt [OF post(4) l(2)]
    have "b \<longrightarrow> liveMatch (table s' ! hash1 H s k) k \<or> liveMatch (table2 s' ! hash2 H s k) k"
      using post(5) holds_liveMatch [OF kT] by blast
    with v1 v2 show ?thesis
      unfolding scanOk_def tableLookup_Cuckoo [OF m [unfolded Cuckoo]] h by auto
  next
    case Hopscotch
    from run Hopscotch have r: "hopscotch_insert H s k v = (b, s')"
      by (simp add: modeInsert_def)
    from hopscotch_insert_post [OF r cap kT wf(1,3) none [unfolded tableLookup_Hopscotch [OF Hopscotch]]]
    show ?thesis unfolding tableLookup_Hopscotch [OF m [unfolded Hopscotch]] h by blast
  next
    case RobinHood
    from run RobinHood have r: "robinhood_insert_loop s (k, v) (hash H s k) 0 0 = (b, s')"
      by (simp add: modeInsert_def robinhood_insert_def)
    from robinhood_insert_post [OF r cap kT wf(1) none [unfolded tableLookup_RobinHood [OF RobinHood]]]
    show ?thesis unfolding tableLookup_RobinHood [OF m [unfolded RobinHood]] h c .
  qed
qed

lemma searchStash_loop_append:
  "searchStash_loop (xs @ [(k, v)]) k =
     (case searchStash_loop xs k of None \<Rightarrow> Some v | Some w \<Rightarrow> Some w)"
  by (induction xs) simp_all

lemma tableLookup_frame_updates [simp]:
  "tableLookup H (s\<lparr> stash := st \<rparr>) k = tableLookup H s k"
  "tableLookup H (s\<lparr> numElements := n \<rparr>) k = tableLookup H s k"
  "tableLookup H (s\<lparr> totalInsertions := n \<rparr>) k = tableLookup H s k"
  by (simp_all add: tableLookup_def getNeighborhoodEnd_def Let_def split: HashMode.splits)

lemma invariant_totalInsertions [simp]:
  "invariant H (s\<lparr> totalInsertions := n \<rparr>) = invariant H s"
  by (simp add: invariant_def wellFormed_def cuckooPlaced_def)

lemma insert_then_search_inv:
  assumes inv: "invariant H s" and kT: "k \<noteq> TOMBSTONE"
    and ins: "insert_ht H k v s = Inr (True, s')"
  shows "search H k s' = Inr (Some v)"
proof -
  from ins have cap: "0 < capacity s" and body: "insert_body H k v s = (True, s')"
    by (simp_all add: insert_ht_def split: if_splits)
  let ?s0 = "s\<lparr> totalInsertions := totalInsertions s + 1 \<rparr>"
  from body have sn: "searchInternal H s k = None"
    by (simp add: insert_body_def split: if_splits)
  then have tn: "tableLookup H s k = None" and stn: "searchStash_loop (stash s) k = None"
    by (simp_all add: searchInternal_def searchStash_def split: option.splits)
  obtain b s1 where mi: "modeInsert H ?s0 k v = (b, s1)" by (cases "modeInsert H ?s0 k v")
  from modeInsert_frame [OF mi] have fr: "capacity s1 = capacity s" "stash s1 = stash s"
    by (simp_all add: frame_def)
  have ok: "scanOk k v b (tableLookup H s1 k)"
    by (rule modeInsert_post [OF mi _ kT]) (use cap inv tn in simp_all)
  have "searchInternal H s' k = Some v"
  proof (cases b)
    case True
    with body sn mi have "s' = s1" by (simp add: insert_body_def Let_def)
    with ok True show ?thesis by (simp add: scanOk_def searchInternal_def)
  next
    case False
    with body sn mi have st: "insertIntoStash s1 k v = (True, s')"
      by (simp add: insert_body_def Let_def)
    then have s': "s' = s1\<lparr> stash := stash s1 @ [(k, v)], numElements := numElements s1 + 1 \<rparr>"
      by (simp add: insertIntoStash_def split: if_splits)
    from ok have "tableLookup H s1 k = None \<or> tableLookup H s1 k = Some v"
      by (simp add: scanOk_def)
    then show ?thesis
      unfolding s' searchInternal_def searchStash_def
      by (auto simp: fr searchStash_loop_append stn)
  qed
  moreover have "capacity s' = capacity s"
    using body sn mi fr by (auto simp: insert_body_def Let_def insertIntoStash_def split: if_splits bool.splits)
  ultimately show ?thesis using cap by (simp add: search_def)
qed

lemma wellFormed_frame: "wellFormed s \<Longrightarrow> frame s s' \<Longrightarrow> wellFormed s'"
  by (simp add: wellFormed_def frame_def)

lemma placedSlot_update:
  assumes "\<forall>i<n. placedSlot (T ! i) i h" "h (fst item) = j"
  shows "\<forall>i<n. placedSlot (T[j := Some item] ! i) i h"
proof (intro allI impI)
  fix i assume i: "i < n"
  show "placedSlot (T[j := Some item] ! i) i h"
  proof (cases "i = j \<and> j < length T")
    case True
    with assms(2) show ?thesis by (simp add: placedSlot_def)
  next
    case False
    then have "T[j := Some item] ! i = T ! i"
      by (cases "j < length T") (auto simp: list_update_beyond)
    with assms(1) i show ?thesis by simp
  qed
qed

lemma cuckooPlaced_iff:
  "cuckooPlaced H s \<longleftrightarrow>
     (\<forall>i<capacity s. placedSlot (table s ! i) i (hash1 H s)) \<and>
     (\<forall>i<capacity s. placedSlot (table2 s ! i) i (hash2 H s))"
  unfolding cuckooPlaced_def by blast

lemma cuckoo_insert_loop_placed:
  assumes run: "cuckoo_insert_loop H s item e = (b, s')" and pl: "cuckooPlaced H s"
  shows "cuckooPlaced H s'"
proof (rule cuckoo_insert_loop_rule [OF run, where I = "\<lambda>s0 item. cuckooPlaced H s0"
          and Q = "\<lambda>b s'. cuckooPlaced H s'"])
  show "cuckooPlaced H s" by (rule pl)
next
  fix s0 :: HybridHashTable and item :: "key \<times> val"
  assume "cuckooPlaced H s0" then show "cuckooPlaced H s0" .
next
  fix s0 item assume p: "cuckooPlaced H s0"
  then show "cuckooPlaced H (s0\<lparr> table := (table s0)[hash1 H s0 (fst item) := Some item],
                    numElements := numElements s0 + 1 \<rparr>)"
    unfolding cuckooPlaced_iff using placedSlot_update [of "capacity s0" "table s0" "hash1 H s0" item]
    by simp
next
  fix s0 item assume p: "cuckooPlaced H s0"
  then show "cuckooPlaced H (s0\<lparr> table := (table s0)[hash1 H s0 (fst item) := Some item],
                    table2 := (table2 s0)[hash2 H s0 (fst (the (table s0 ! hash1 H s0 (fst item)))) :=
                                Some (the (table s0 ! hash1 H s0 (fst item)))],
                    numElements := numElements s0 + 1 \<rparr>)"
    unfolding cuckooPlaced_iff
    using placedSlot_update [of "capacity s0" "table s0" "hash1 H s0" item]
      placedSlot_update [of "capacity s0" "table2 s0" "hash2 H s0" "the (table s0 ! hash1 H s0 (fst item))"]
    by simp
next
  fix s0 item assume p: "cuckooPlaced H s0"
  then show "cuckooPlaced H (s0\<lparr> table := (table s0)[hash1 H s0 (fst item) := Some item],
               table2 := (table2 s0)[hash2 H s0 (fst (the (table s0 ! hash1 H s0 (fst item)))) :=
                                Some (the (table s0 ! hash1 H s0 (fst item)))],
               totalCollisions := totalCollisions s0 + 1 \<rparr>)"
    unfolding cuckooPlaced_iff
    using placedSlot_update [of "capacity s0" "table s0" "hash1 H s0" item]
      placedSlot_update [of "capacity s0" "table2 s0" "hash2 H s0" "the (table s0 ! hash1 H s0 (fst item))"]
    by simp
qed

lemma invariant_new: "invariant H (HybridHashTable_new n)"
  by (simp add: invariant_def wellFormed_def HybridHashTable_new_def)

lemma invariant_setMode: "invariant H (setMode m s)"
  by (simp add: invariant_def wellFormed_def setMode_def cuckooPlaced_def placedSlot_def)

lemma cuckooPlaced_stash [simp]:
  "cuckooPlaced H (s\<lparr> stash := st \<rparr>) = cuckooPlaced H s"
  "cuckooPlaced H (s\<lparr> numElements := n \<rparr>) = cuckooPlaced H s"
  "cuckooPlaced H (s\<lparr> totalInsertions := n \<rparr>) = cuckooPlaced H s"
  by (simp_all add: cuckooPlaced_def)

lemma invariant_modeInsert:
  assumes inv: "invariant H s" and run: "modeInsert H s k v = (b, s')"
  shows "invariant H s'"
proof -
  from modeInsert_frame [OF run] have fr: "frame s s'" by blast
  then have m: "currentMode s' = currentMode s" by (simp add: frame_def)
  from inv fr have wf: "wellFormed s'" by (auto simp: invariant_def intro: wellFormed_frame)
  show ?thesis
  proof (cases "currentMode s")
    case Cuckoo
    with inv have "cuckooPlaced H s" by (simp add: invariant_def)
    moreover from run Cuckoo have "cuckoo_insert_loop H s (k, v) 0 = (b, s')"
      by (simp add: modeInsert_def cuckoo_insert_def)
    ultimately have "cuckooPlaced H s'" by (rule cuckoo_insert_loop_placed [rotated])
    with wf show ?thesis by (simp add: invariant_def)
  next
    case Hopscotch
    with wf m show ?thesis by (simp add: invariant_def)
  next
    case RobinHood
    with wf m show ?thesis by (simp add: invariant_def)
  qed
qed

lemma invariant_stash_updates [simp]:
  "invariant H (s\<lparr> stash := st \<rparr>) = invariant H s"
  "invariant H (s\<lparr> numElements := n \<rparr>) = invariant H s"
  by (simp_all add: invariant_def wellFormed_def)

lemma invariant_insert_body:
  assumes inv: "invariant H s"
  shows "invariant H (snd (insert_body H k v s))"
proof (cases "searchInternal H s k = None")
  case False
  with inv show ?thesis by (simp add: insert_body_def)
next
  case True
  let ?s0 = "s\<lparr> totalInsertions := totalInsertions s + 1 \<rparr>"
  obtain b s1 where mi: "modeInsert H ?s0 k v = (b, s1)" by (cases "modeInsert H ?s0 k v")
  from inv have "invariant H ?s0" by simp
  from invariant_modeInsert [OF this mi] have "invariant H s1" .
  with True mi show ?thesis
    by (cases b) (simp_all add: insert_body_def Let_def insertIntoStash_def)
qed

lemma backwardShift_loop_frame:
  "frame s (backwardShift_loop H s startIndex currentIndex probe)"
proof (induction "capacity s - probe" arbitrary: s currentIndex probe rule: less_induct)
  case less
  show ?case
  proof (cases "probe < capacity s")
    case False
    then show ?thesis by (subst backwardShift_loop.simps) simp
  next
    case True
    let ?next = "(startIndex + probe) mod capacity s"
    let ?nd = "getProbeDistance s (hash H s (fst (the (table s ! ?next)))) ?next"
    let ?s' = "s\<lparr> table := (table s)[currentIndex := table s ! ?next, ?next := None],
                  probeDistances := (probeDistances s)[currentIndex := word_of_nat (?nd - 1), ?next := 0] \<rparr>"
    show ?thesis
    proof (cases "available (table s ! ?next) \<or> ?nd = 0")
      case stop: True
      with True show ?thesis by (subst backwardShift_loop.simps) (auto simp: Let_def)
    next
      case False
      with True have eq: "backwardShift_loop H s startIndex currentIndex probe =
          backwardShift_loop H ?s' startIndex ?next (probe + 1)"
        by (subst backwardShift_loop.simps) (simp add: Let_def)
      have "capacity ?s' - (probe + 1) < capacity s - probe" using True by simp
      from less.hyps [OF this] have "frame ?s' (backwardShift_loop H ?s' startIndex ?next (probe + 1))" .
      moreover have "frame s ?s'" by (simp add: frame_def)
      ultimately show ?thesis unfolding eq by (rule frame_trans [rotated])
    qed
  qed
qed

lemma placedSlot_tombstone:
  assumes "\<forall>i<n. placedSlot (T ! i) i h"
  shows "\<forall>i<n. placedSlot (T[j := Some (TOMBSTONE, w)] ! i) i h"
proof (intro allI impI)
  fix i assume i: "i < n"
  show "placedSlot (T[j := Some (TOMBSTONE, w)] ! i) i h"
  proof (cases "i = j \<and> j < length T")
    case True
    then show ?thesis by (simp add: placedSlot_def)
  next
    case False
    then have "T[j := Some (TOMBSTONE, w)] ! i = T ! i"
      by (cases "j < length T") (auto simp: list_update_beyond)
    with assms i show ?thesis by simp
  qed
qed

lemma invariant_removeFromStash: "invariant H s \<Longrightarrow> invariant H (snd (removeFromStash s k))"
  by (simp add: removeFromStash_def split: option.splits)

lemma invariant_remove_body:
  assumes inv: "invariant H s"
  shows "invariant H (snd (remove_body H k s))"
proof (cases "currentMode s")
  case Cuckoo
  with inv have pl: "cuckooPlaced H s" and wf: "wellFormed s" by (simp_all add: invariant_def)
  from pl have
    "cuckooPlaced H (s\<lparr> table := (table s)[hash1 H s k := Some (TOMBSTONE, 0)],
                        numElements := numElements s - 1 \<rparr>)"
    "cuckooPlaced H (s\<lparr> table2 := (table2 s)[hash2 H s k := Some (TOMBSTONE, 0)],
                        numElements := numElements s - 1 \<rparr>)"
    unfolding cuckooPlaced_iff
    using placedSlot_tombstone [of "capacity s" "table s" "hash1 H s"]
      placedSlot_tombstone [of "capacity s" "table2 s" "hash2 H s"]
    by simp_all
  with Cuckoo wf invariant_removeFromStash [OF inv, of k] show ?thesis
    by (simp add: remove_body_def Let_def invariant_def wellFormed_def)
next
  case Hopscotch
  with inv invariant_removeFromStash [OF inv, of k] show ?thesis
    by (simp add: remove_body_def Let_def invariant_def wellFormed_def split: option.splits)
next
  case RobinHood
  have "invariant H (backwardShift H
          (s\<lparr> table := (table s)[i := Some (TOMBSTONE, 0)],
               probeDistances := (probeDistances s)[i := 0],
               numElements := numElements s - 1 \<rparr>) i)" for i
  proof -
    let ?s1 = "s\<lparr> table := (table s)[i := Some (TOMBSTONE, 0)],
               probeDistances := (probeDistances s)[i := 0],
               numElements := numElements s - 1 \<rparr>"
    have "frame s ?s1" by (simp add: frame_def)
    from frame_trans [OF this backwardShift_loop_frame]
    have fr: "frame s (backwardShift H ?s1 i)" unfolding backwardShift_def .
    with inv have "wellFormed (backwardShift H ?s1 i)"
      by (auto simp: invariant_def intro: wellFormed_frame)
    moreover from fr RobinHood have "currentMode (backwardShift H ?s1 i) = RobinHood"
      by (simp add: frame_def)
    ultimately show ?thesis by (simp add: invariant_def)
  qed
  with RobinHood invariant_removeFromStash [OF inv, of k] show ?thesis
    by (simp add: remove_body_def split: option.splits)
qed

lemma invariant_resize: "resize n s = Inr s' \<Longrightarrow> invariant H s'"
  by (auto simp: resize_def rehash_def Let_def invariant_def wellFormed_def cuckooPlaced_def
        placedSlot_def split: if_splits)

lemma invariant_step: "invariant H s \<Longrightarrow> step H opn s = Inr s' \<Longrightarrow> invariant H s'"
proof (cases opn)
  case (Insert k v)
  assume "invariant H s" "step H opn s = Inr s'"
  with Insert invariant_insert_body [of H s k v] show ?thesis
    by (auto simp: step_def insert_ht_def split: if_splits)
next
  case (Remove k)
  assume "invariant H s" "step H opn s = Inr s'"
  with Remove invariant_remove_body [of H s k] show ?thesis
    by (auto simp: step_def remove_ht_def split: if_splits)
next
  case (Search k)
  assume "invariant H s" "step H opn s = Inr s'"
  with Search show ?thesis by (auto simp: step_def search_def split: if_splits)
next
  case (Resize n)
  assume "invariant H s" "step H opn s = Inr s'"
  with Resize show ?thesis by (auto simp: step_def intro: invariant_resize)
next
  case (SetMode m)
  assume "invariant H s" "step H opn s = Inr s'"
  with SetMode show ?thesis by (auto simp: step_def intro: invariant_setMode)
qed

lemma invariant_run: "invariant H s \<Longrightarrow> run H ops s = Inr s' \<Longrightarrow> invariant H s'"
proof (induction ops arbitrary: s)
  case Nil
  then show ?case by simp
next
  case (Cons opn ops)
  then show ?case
    by (cases "step H opn s") (auto intro: invariant_step)
qed

lemma invariant_reachable: "run H ops (HybridHashTable_new n) = Inr s \<Longrightarrow> invariant H s"
  by (rule invariant_run [OF invariant_new])

section \<open>The sentinel key\<close>

lemma liveMatch_TOMBSTONE [simp]: "liveMatch sl TOMBSTONE = False"
  by (cases sl) (simp_all add: liveMatch_def isTombstone_def)

lemma robinhood_scan_no_match:
  assumes "\<forall>j<MAX_PROBE_DISTANCE. \<not> liveMatch (T ! ((ideal + j) mod cap)) k"
  shows "robinhood_scan T cap ideal k p = None"
proof -
  from assms have *: "\<forall>j<MAX_PROBE_DISTANCE. liveMatch (T ! ((ideal + j) mod cap)) k \<longrightarrow>
            snd (the (T ! ((ideal + j) mod cap))) = v" for v
    by blast
  from robinhood_scan_value [OF * [of 0], of p] robinhood_scan_value [OF * [of 1], of p]
  show ?thesis by auto
qed

lemma tableLookup_TOMBSTONE: "tableLookup H s TOMBSTONE = None"
proof (cases "currentMode s")
  case Cuckoo
  then show ?thesis by (simp add: tableLookup_Cuckoo)
next
  case Hopscotch
  then show ?thesis
    by (simp add: tableLookup_Hopscotch hopscotch_scan_None_iff hopHit_def)
next
  case RobinHood
  then show ?thesis
    by (simp add: tableLookup_RobinHood robinhood_scan_no_match)
qed

lemma modeInsert_fresh:
  assumes n: "0 < n"
  shows "\<exists>s1. modeInsert H (setMode m (HybridHashTable_new n)\<lparr> totalInsertions := t \<rparr>) k v = (True, s1) \<and>
              Some (k, v) \<in> set (table s1)"
proof (cases m)
  case Cuckoo
  have "hash1 H (setMode m (HybridHashTable_new n)\<lparr> totalInsertions := t \<rparr>) k < n"
    using n by (simp add: hash1_def setMode_def HybridHashTable_new_def)
  with Cuckoo n show ?thesis
    unfolding modeInsert_def cuckoo_insert_def
    by (subst cuckoo_insert_loop.simps)
       (auto simp: setMode_def HybridHashTable_new_def MAX_EVICTIONS_def Let_def
          set_update_memI)
next
  case Hopscotch
  let ?s = "setMode m (HybridHashTable_new n)\<lparr> totalInsertions := t \<rparr>"
  define base where "base = hash H ?s k"
  have base: "base < n" unfolding base_def using n
    by (simp add: hash_def setMode_def HybridHashTable_new_def)
  have st: "getNeighborhoodStart base < n" using neighborhood_bounds(1) [of base] base by simp
  have en: "getNeighborhoodStart base < getNeighborhoodEnd ?s base"
    using st by (simp add: getNeighborhoodEnd_def setMode_def HybridHashTable_new_def HOP_RANGE_def)
  have fe: "findEmptySlot ?s (getNeighborhoodStart base) (getNeighborhoodEnd ?s base) =
              getNeighborhoodStart base"
    unfolding findEmptySlot_def using en st
    by (subst findEmptySlot_loop.simps) (simp add: setMode_def HybridHashTable_new_def)
  have cap: "capacity ?s = n" by (simp add: setMode_def HybridHashTable_new_def)
  have len: "length (table ?s) = n" by (simp add: setMode_def HybridHashTable_new_def)
  have "Some (k, v) \<in> set (table (hopscotch_place ?s base (getNeighborhoodStart base) k v))"
    unfolding hopscotch_place_def using st len by (simp add: Let_def set_update_memI)
  with Hopscotch fe st cap show ?thesis
    unfolding modeInsert_def hopscotch_insert_def base_def [symmetric]
    by (simp add: Let_def setMode_def)
next
  case RobinHood
  with n show ?thesis
    unfolding modeInsert_def robinhood_insert_def
    by (subst robinhood_insert_loop.simps)
       (auto simp: setMode_def HybridHashTable_new_def MAX_PROBE_DISTANCE_def Let_def
          set_update_memI)
qed


text \<open>
  C10. On a fresh table of any positive capacity, put in any of the three modes, the
  insert of the sentinel key returns true and the size grows by one; the pair sits in
  the primary table, the stash stays empty, and the search of the sentinel key returns
  empty.
\<close>

theorem tombstone_key_insert_lost:
  assumes n: "0 < n"
  shows "\<exists>s1. insert_ht H TOMBSTONE v (setMode m (HybridHashTable_new n)) = Inr (True, s1) \<and>
              size_ht s1 = size_ht (setMode m (HybridHashTable_new n)) + 1 \<and>
              Some (TOMBSTONE, v) \<in> set (table s1) \<and> stash s1 = [] \<and>
              search H TOMBSTONE s1 = Inr None"
proof -
  let ?s = "setMode m (HybridHashTable_new n)"
  have cap: "capacity ?s = n" and st: "stash ?s = []"
    by (simp_all add: setMode_def HybridHashTable_new_def)
  have si: "searchInternal H ?s TOMBSTONE = None"
    by (simp add: searchInternal_def tableLookup_TOMBSTONE searchStash_def st)
  from modeInsert_fresh [OF n, where H = H and m = m and t = "totalInsertions ?s + 1"
      and k = TOMBSTONE and v = v]
  obtain s1 where mi: "modeInsert H (?s\<lparr> totalInsertions := totalInsertions ?s + 1 \<rparr>) TOMBSTONE v = (True, s1)"
    and mem: "Some (TOMBSTONE, v) \<in> set (table s1)" by blast
  from modeInsert_frame [OF mi] have fr: "capacity s1 = n" "stash s1 = []"
    "numElements s1 = numElements ?s + 1"
    by (simp_all add: frame_def cap st)
  have ins: "insert_ht H TOMBSTONE v ?s = Inr (True, s1)"
    using n si mi by (simp add: insert_ht_def insert_body_def cap Let_def)
  have "search H TOMBSTONE s1 = Inr None"
    using n fr by (simp add: search_def searchInternal_def tableLookup_TOMBSTONE searchStash_def)
  with ins mem fr show ?thesis by (simp add: size_ht_def)
qed

theorem tombstone_key_insert_lost_witness:
  "0 < (2::nat) \<and>
   (\<exists>s1. insert_ht lengthHash TOMBSTONE 7 (setMode RobinHood (HybridHashTable_new 2)) = Inr (True, s1) \<and>
         size_ht s1 = size_ht (setMode RobinHood (HybridHashTable_new 2)) + 1 \<and>
         Some (TOMBSTONE, 7) \<in> set (table s1) \<and> stash s1 = [] \<and>
         search lengthHash TOMBSTONE s1 = Inr None)"
  using tombstone_key_insert_lost [of 2 lengthHash 7 RobinHood] by simp

section \<open>Insert, then search\<close>

text \<open>
  C1, for every key other than the sentinel. On every table reached from a fresh one
  by public operations, whatever its mode, an insert of a key other than
  \<^verbatim>\<open>__TOMBSTONE__\<close> that returns true is followed by a search that returns the
  inserted value.
\<close>

theorem insert_then_search:
  assumes "run H ops (HybridHashTable_new n) = Inr s" and "k \<noteq> TOMBSTONE"
    and "insert_ht H k v s = Inr (True, s')"
  shows "search H k s' = Inr (Some v)"
  using insert_then_search_inv [OF invariant_reachable [OF assms(1)] assms(2,3)] .

theorem insert_then_search_witness:
  "run lengthHash [SetMode RobinHood, Insert ''a'' 1] (HybridHashTable_new 2) =
     Inr \<lparr> table = [None, Some (''a'', 1)], capacity = 2, numElements = 1,
           currentMode = RobinHood, table2 = [None, None], hopInfo = [0, 0],
           probeDistances = [0, 0], stash = [], totalInsertions = 1,
           totalCollisions = 0, totalProbes = 1 \<rparr> \<and>
   ''ccc'' \<noteq> TOMBSTONE \<and>
   insert_ht lengthHash ''ccc'' 3
     \<lparr> table = [None, Some (''a'', 1)], capacity = 2, numElements = 1,
       currentMode = RobinHood, table2 = [None, None], hopInfo = [0, 0],
       probeDistances = [0, 0], stash = [], totalInsertions = 1,
       totalCollisions = 0, totalProbes = 1 \<rparr> =
     Inr (True, \<lparr> table = [Some (''ccc'', 3), Some (''a'', 1)], capacity = 2,
                  numElements = 2, currentMode = RobinHood, table2 = [None, None],
                  hopInfo = [0, 0], probeDistances = [1, 0], stash = [],
                  totalInsertions = 2, totalCollisions = 1, totalProbes = 3 \<rparr>) \<and>
   search lengthHash ''ccc''
     \<lparr> table = [Some (''ccc'', 3), Some (''a'', 1)], capacity = 2,
       numElements = 2, currentMode = RobinHood, table2 = [None, None],
       hopInfo = [0, 0], probeDistances = [1, 0], stash = [],
       totalInsertions = 2, totalCollisions = 1, totalProbes = 3 \<rparr> = Inr (Some 3)"
proof -
  have r: "run lengthHash [SetMode RobinHood, Insert ''a'' 1] (HybridHashTable_new 2) =
     Inr \<lparr> table = [None, Some (''a'', 1)], capacity = 2, numElements = 1,
           currentMode = RobinHood, table2 = [None, None], hopInfo = [0, 0],
           probeDistances = [0, 0], stash = [], totalInsertions = 1,
           totalCollisions = 0, totalProbes = 1 \<rparr>"
    by code_simp
  have k: "''ccc'' \<noteq> TOMBSTONE" by (simp add: TOMBSTONE_def)
  have i: "insert_ht lengthHash ''ccc'' 3
     \<lparr> table = [None, Some (''a'', 1)], capacity = 2, numElements = 1,
       currentMode = RobinHood, table2 = [None, None], hopInfo = [0, 0],
       probeDistances = [0, 0], stash = [], totalInsertions = 1,
       totalCollisions = 0, totalProbes = 1 \<rparr> =
     Inr (True, \<lparr> table = [Some (''ccc'', 3), Some (''a'', 1)], capacity = 2,
                  numElements = 2, currentMode = RobinHood, table2 = [None, None],
                  hopInfo = [0, 0], probeDistances = [1, 0], stash = [],
                  totalInsertions = 2, totalCollisions = 1, totalProbes = 3 \<rparr>)"
    by code_simp
  from insert_then_search [OF r k i] r k i show ?thesis by simp
qed

text \<open>
  C1 as stated fails at the sentinel key: on a fresh table of capacity 1 the insert
  of \<^verbatim>\<open>__TOMBSTONE__\<close> returns true and the search that follows returns empty.
\<close>

theorem roundtrip_tombstone_counterexample:
  "insert_ht lengthHash TOMBSTONE 7 (HybridHashTable_new 1) =
     Inr (True, \<lparr> table = [Some (TOMBSTONE, 7)], capacity = 1, numElements = 1,
                  currentMode = Hopscotch, table2 = [None], hopInfo = [1],
                  probeDistances = [0], stash = [], totalInsertions = 1,
                  totalCollisions = 0, totalProbes = 0 \<rparr>) \<and>
   search lengthHash TOMBSTONE
     \<lparr> table = [Some (TOMBSTONE, 7)], capacity = 1, numElements = 1,
       currentMode = Hopscotch, table2 = [None], hopInfo = [1],
       probeDistances = [0], stash = [], totalInsertions = 1,
       totalCollisions = 0, totalProbes = 0 \<rparr> = Inr None"
  by code_simp

section \<open>The result of insert\<close>

text \<open>
  The flag returned by \<open>insert\<close>, in the terms of the code itself: it is true exactly
  when the search of the key was empty before the call and either the placement loop
  of the current mode reported success or the stash had room. When the search found
  the key the table is returned as it was, and the size grows by one exactly when the
  flag is true. Whether the search and the success flag tell where the key really is
  is another matter, taken up at the end of the theory.
\<close>

lemma insert_result:
  assumes "insert_ht H k v s = Inr (r, s')"
  shows "(r \<longleftrightarrow> search H k s = Inr None \<and> (placedByMode H s k v \<or> length (stash s) < MAX_STASH_SIZE)) \<and>
         (search H k s \<noteq> Inr None \<longrightarrow> s' = s) \<and>
         size_ht s' = size_ht s + (if r then 1 else 0)"
proof -
  from assms have cap: "0 < capacity s" and body: "insert_body H k v s = (r, s')"
    by (simp_all add: insert_ht_def split: if_splits)
  let ?s0 = "s\<lparr> totalInsertions := totalInsertions s + 1 \<rparr>"
  obtain b s1 where mi: "modeInsert H ?s0 k v = (b, s1)" by (cases "modeInsert H ?s0 k v")
  from modeInsert_frame [OF mi] have fr: "stash s1 = stash s"
    "numElements s1 = numElements s + (if b then 1 else 0)"
    by (simp_all add: frame_def)
  have pb: "placedByMode H s k v = b" using mi by (simp add: placedByMode_def)
  show ?thesis
  proof (cases "searchInternal H s k = None")
    case False
    with body cap show ?thesis by (auto simp: insert_body_def search_def size_ht_def)
  next
    case True
    with body mi fr cap show ?thesis
      unfolding pb
      by (cases b) (auto simp: insert_body_def Let_def insertIntoStash_def search_def size_ht_def
            split: if_splits)
  qed
qed

section \<open>Tables of capacity one\<close>

lemma hash_capacity_1 [simp]:
  "capacity s = 1 \<Longrightarrow> hash H s k = 0"
  "capacity s = 1 \<Longrightarrow> hash1 H s k = 0"
  "capacity s = 1 \<Longrightarrow> hash2 H s k = 0"
  by (simp_all add: hash_def hash1_def hash2_def)

text \<open>
  Cuckoo mode on a table of capacity 1 whose two slots are live: one pass of the
  eviction loop puts the item in hand into the primary slot, moves the primary
  occupant to the secondary slot and goes on with the secondary occupant.
\<close>

lemma cuckoo_cap1_pass:
  assumes "capacity s = 1" "table s = [Some x]" "table2 s = [Some y]"
    and "fst x \<noteq> TOMBSTONE" "fst y \<noteq> TOMBSTONE" "e < MAX_EVICTIONS"
  shows "cuckoo_insert_loop H s item e =
         cuckoo_insert_loop H
           (s\<lparr> table := [Some item], table2 := [Some x],
                totalCollisions := totalCollisions s + 1 \<rparr>) y (e + 2)"
  using assms
  by (subst cuckoo_insert_loop.simps) (simp add: Let_def available_Some)

lemma cuckoo_cap1_three:
  assumes "capacity s = 1" "table s = [Some x]" "table2 s = [Some y]"
    and "fst x \<noteq> TOMBSTONE" "fst y \<noteq> TOMBSTONE" "fst item \<noteq> TOMBSTONE"
    and "e + 4 < MAX_EVICTIONS"
  shows "cuckoo_insert_loop H s item e =
         cuckoo_insert_loop H (s\<lparr> totalCollisions := totalCollisions s + 3 \<rparr>) item (e + 6)"
proof -
  let ?s1 = "s\<lparr> table := [Some item], table2 := [Some x],
                totalCollisions := totalCollisions s + 1 \<rparr>"
  let ?s2 = "?s1\<lparr> table := [Some y], table2 := [Some item],
                totalCollisions := totalCollisions ?s1 + 1 \<rparr>"
  let ?s3 = "?s2\<lparr> table := [Some x], table2 := [Some y],
                totalCollisions := totalCollisions ?s2 + 1 \<rparr>"
  from assms have e: "e < MAX_EVICTIONS" "e + 2 < MAX_EVICTIONS" "e + 2 + 2 < MAX_EVICTIONS"
    by simp_all
  have s3: "?s3 = s\<lparr> totalCollisions := totalCollisions s + 3 \<rparr>"
    using assms(2,3) by simp
  have "cuckoo_insert_loop H s item e = cuckoo_insert_loop H ?s1 y (e + 2)"
    using assms e(1) by (intro cuckoo_cap1_pass [where x = x and y = y]) simp_all
  also have "\<dots> = cuckoo_insert_loop H ?s2 x (e + 2 + 2)"
    using assms e(2) by (intro cuckoo_cap1_pass [where x = item and y = x]) simp_all
  also have "\<dots> = cuckoo_insert_loop H ?s3 item (e + 2 + 2 + 2)"
    using assms e(3) by (intro cuckoo_cap1_pass [where x = y and y = item]) simp_all
  finally have f: "cuckoo_insert_loop H s item e = cuckoo_insert_loop H ?s3 item (e + 2 + 2 + 2)" .
  have ar: "e + 2 + 2 + 2 = e + 6" by simp
  from f show ?thesis unfolding s3 ar .
qed

lemma cuckoo_cap1_cycles:
  assumes "capacity s = 1" "table s = [Some x]" "table2 s = [Some y]"
    and "fst x \<noteq> TOMBSTONE" "fst y \<noteq> TOMBSTONE" "fst item \<noteq> TOMBSTONE"
    and "e + 6 * n < MAX_EVICTIONS + 2"
  shows "cuckoo_insert_loop H s item e =
         cuckoo_insert_loop H (s\<lparr> totalCollisions := totalCollisions s + 3 * of_nat n \<rparr>)
           item (e + 6 * n)"
  using assms
proof (induction n arbitrary: s e)
  case 0
  then show ?case by simp
next
  case (Suc n)
  let ?s = "s\<lparr> totalCollisions := totalCollisions s + 3 \<rparr>"
  from Suc.prems have "e + 4 < MAX_EVICTIONS" by simp
  with Suc.prems have "cuckoo_insert_loop H s item e = cuckoo_insert_loop H ?s item (e + 6)"
    by (intro cuckoo_cap1_three [where x = x and y = y]) simp_all
  also have "\<dots> = cuckoo_insert_loop H
        (?s\<lparr> totalCollisions := totalCollisions ?s + 3 * of_nat n \<rparr>) item (e + 6 + 6 * n)"
    using Suc.prems by (intro Suc.IH) simp_all
  finally show ?case by (simp add: algebra_simps)
qed

lemma cuckoo_cap1_full:
  assumes "capacity s = 1" "table s = [Some x]" "table2 s = [Some y]"
    and "fst x \<noteq> TOMBSTONE" "fst y \<noteq> TOMBSTONE" "fst item \<noteq> TOMBSTONE"
  shows "cuckoo_insert_loop H s item 0 =
         (False, s\<lparr> table := [Some item], table2 := [Some x],
                     totalCollisions := totalCollisions s + 250 \<rparr>)"
proof -
  let ?s = "s\<lparr> totalCollisions := totalCollisions s + 3 * of_nat (83::nat) \<rparr>"
  have "cuckoo_insert_loop H s item 0 = cuckoo_insert_loop H ?s item (0 + 6 * 83)"
    using assms by (intro cuckoo_cap1_cycles [where x = x and y = y]) (simp_all add: MAX_EVICTIONS_def)
  also have "\<dots> = cuckoo_insert_loop H
      (?s\<lparr> table := [Some item], table2 := [Some x],
           totalCollisions := totalCollisions ?s + 1 \<rparr>) y (0 + 6 * 83 + 2)"
    using assms by (intro cuckoo_cap1_pass [where x = x and y = y]) (simp_all add: MAX_EVICTIONS_def)
  also have "\<dots> = (False, ?s\<lparr> table := [Some item], table2 := [Some x],
           totalCollisions := totalCollisions ?s + 1 \<rparr>)"
    by (subst cuckoo_insert_loop.simps) (simp add: MAX_EVICTIONS_def)
  finally show ?thesis by simp
qed

lemma word64_less_succ:
  fixes d :: "64 word"
  assumes "unat d + 1 < 2 ^ 64"
  shows "d < d + 1"
proof -
  have "unat (d + 1) = unat d + 1"
    using assms by (simp add: unat_add_lem [THEN iffD1])
  then show ?thesis by (simp add: word_less_nat_alt)
qed

text \<open>
  Robin Hood mode on a table of capacity 1 whose slot is live and records the
  distance \<open>d\<close>, with an item in hand at the same distance: the first probe counts a
  collision, the second one swaps, and the evicted occupant goes on at \<open>d + 1\<close>.
\<close>

lemma robinhood_cap1_two:
  assumes "capacity s = 1" "table s = [Some x]" "probeDistances s = [d]"
    and "fst x \<noteq> TOMBSTONE" "unat d + 1 < 2 ^ 64" "p + 1 < MAX_PROBE_DISTANCE"
  shows "robinhood_insert_loop s item ideal d p =
         robinhood_insert_loop
           (s\<lparr> totalProbes := totalProbes s + 2, totalCollisions := totalCollisions s + 1,
                table := [Some item], probeDistances := [d + 1] \<rparr>) x ideal (d + 1) (p + 2)"
proof -
  let ?s1 = "s\<lparr> totalProbes := totalProbes s + 1, totalCollisions := totalCollisions s + 1 \<rparr>"
  from assms(6) have p: "p < MAX_PROBE_DISTANCE" by simp
  have "robinhood_insert_loop s item ideal d p = robinhood_insert_loop ?s1 item ideal (d + 1) (p + 1)"
    using assms(1-4) p
    by (subst robinhood_insert_loop.simps) (simp add: Let_def available_Some)
  also have "\<dots> = robinhood_insert_loop
           (?s1\<lparr> totalProbes := totalProbes ?s1 + 1,
                  table := [Some item], probeDistances := [d + 1] \<rparr>) x ideal (d + 1) (p + 1 + 1)"
    using assms(1-4,6) word64_less_succ [OF assms(5)]
    by (subst robinhood_insert_loop.simps) (simp add: Let_def available_Some)
  finally have f: "robinhood_insert_loop s item ideal d p =
      robinhood_insert_loop
           (?s1\<lparr> totalProbes := totalProbes ?s1 + 1,
                  table := [Some item], probeDistances := [d + 1] \<rparr>) x ideal (d + 1) (p + 1 + 1)" .
  have eq: "?s1\<lparr> totalProbes := totalProbes ?s1 + 1,
                  table := [Some item], probeDistances := [d + 1] \<rparr> =
            s\<lparr> totalProbes := totalProbes s + 2, totalCollisions := totalCollisions s + 1,
                table := [Some item], probeDistances := [d + 1] \<rparr>"
    by (cases s) simp
  have ar: "p + 1 + 1 = p + 2" by simp
  from f show ?thesis unfolding eq ar .
qed

lemma robinhood_cap1_four:
  assumes "capacity s = 1" "table s = [Some x]" "probeDistances s = [d]"
    and "fst x \<noteq> TOMBSTONE" "fst item \<noteq> TOMBSTONE"
    and "unat d + 2 < 2 ^ 64" "p + 3 < MAX_PROBE_DISTANCE"
  shows "robinhood_insert_loop s item ideal d p =
         robinhood_insert_loop
           (s\<lparr> totalProbes := totalProbes s + 4, totalCollisions := totalCollisions s + 2,
                probeDistances := [d + 2] \<rparr>) item ideal (d + 2) (p + 4)"
proof -
  let ?s1 = "s\<lparr> totalProbes := totalProbes s + 2, totalCollisions := totalCollisions s + 1,
                table := [Some item], probeDistances := [d + 1] \<rparr>"
  let ?s2 = "?s1\<lparr> totalProbes := totalProbes ?s1 + 2, totalCollisions := totalCollisions ?s1 + 1,
                table := [Some x], probeDistances := [d + 1 + 1] \<rparr>"
  have u: "unat d + 1 < 2 ^ 64" using assms(6) by simp
  then have u1: "unat (d + 1) = unat d + 1" by (simp add: unat_add_lem [THEN iffD1])
  have u': "unat (d + 1) + 1 < 2 ^ 64" using assms(6) u1 by simp
  have s2: "?s2 = s\<lparr> totalProbes := totalProbes s + 4, totalCollisions := totalCollisions s + 2,
                probeDistances := [d + 2] \<rparr>"
    using assms(2) by (cases s) (simp add: add.assoc)
  have "robinhood_insert_loop s item ideal d p = robinhood_insert_loop ?s1 x ideal (d + 1) (p + 2)"
    using assms u by (intro robinhood_cap1_two) simp_all
  also have "\<dots> = robinhood_insert_loop ?s2 item ideal (d + 1 + 1) (p + 2 + 2)"
    using assms u' by (intro robinhood_cap1_two) simp_all
  finally have f: "robinhood_insert_loop s item ideal d p =
      robinhood_insert_loop ?s2 item ideal (d + 1 + 1) (p + 2 + 2)" .
  have ar: "p + 2 + 2 = p + 4" "d + 1 + 1 = d + 2" by simp_all
  from f [unfolded s2] show ?thesis unfolding ar .
qed

lemma robinhood_cap1_rounds:
  assumes "capacity s = 1" "table s = [Some x]" "probeDistances s = [d]"
    and "fst x \<noteq> TOMBSTONE" "fst item \<noteq> TOMBSTONE"
    and "unat d + 2 * n < 2 ^ 64" "p + 4 * n \<le> MAX_PROBE_DISTANCE"
  shows "robinhood_insert_loop s item ideal d p =
         robinhood_insert_loop
           (s\<lparr> totalProbes := totalProbes s + 4 * of_nat n,
                totalCollisions := totalCollisions s + 2 * of_nat n,
                probeDistances := [d + 2 * of_nat n] \<rparr>) item ideal (d + 2 * of_nat n) (p + 4 * n)"
  using assms
proof (induction n arbitrary: s d p)
  case 0
  have "s\<lparr> totalProbes := totalProbes s + 4 * of_nat 0,
                totalCollisions := totalCollisions s + 2 * of_nat 0,
                probeDistances := [d + 2 * of_nat 0] \<rparr> = s"
    using 0(3) by (cases s) simp
  then show ?case by simp
next
  case (Suc n)
  let ?s = "s\<lparr> totalProbes := totalProbes s + 4, totalCollisions := totalCollisions s + 2,
                probeDistances := [d + 2] \<rparr>"
  from Suc.prems have u: "unat d + 2 < 2 ^ 64" and p: "p + 3 < MAX_PROBE_DISTANCE" by simp_all
  then have u2: "unat (d + 2) = unat d + 2" by (simp add: unat_add_lem [THEN iffD1])
  have "robinhood_insert_loop s item ideal d p = robinhood_insert_loop ?s item ideal (d + 2) (p + 4)"
    using Suc.prems(1-5) u p by (intro robinhood_cap1_four) simp_all
  also have "\<dots> = robinhood_insert_loop
           (?s\<lparr> totalProbes := totalProbes ?s + 4 * of_nat n,
                totalCollisions := totalCollisions ?s + 2 * of_nat n,
                probeDistances := [d + 2 + 2 * of_nat n] \<rparr>) item ideal (d + 2 + 2 * of_nat n)
           (p + 4 + 4 * n)"
    using Suc.prems u2 by (intro Suc.IH) simp_all
  finally have f: "robinhood_insert_loop s item ideal d p =
      robinhood_insert_loop
           (?s\<lparr> totalProbes := totalProbes ?s + 4 * of_nat n,
                totalCollisions := totalCollisions ?s + 2 * of_nat n,
                probeDistances := [d + 2 + 2 * of_nat n] \<rparr>) item ideal (d + 2 + 2 * of_nat n)
           (p + 4 + 4 * n)" .
  have eq: "?s\<lparr> totalProbes := totalProbes ?s + 4 * of_nat n,
                totalCollisions := totalCollisions ?s + 2 * of_nat n,
                probeDistances := [d + 2 + 2 * of_nat n] \<rparr> =
            s\<lparr> totalProbes := totalProbes s + 4 * of_nat (Suc n),
                totalCollisions := totalCollisions s + 2 * of_nat (Suc n),
                probeDistances := [d + 2 * of_nat (Suc n)] \<rparr>"
    by (cases s) (simp add: algebra_simps)
  have ar: "p + 4 + 4 * n = p + 4 * Suc n" "d + 2 + 2 * of_nat n = d + 2 * of_nat (Suc n)"
    by (simp_all add: algebra_simps)
  from f [unfolded eq] show ?case unfolding ar .
qed

lemma robinhood_cap1_full:
  assumes "capacity s = 1" "table s = [Some x]" "probeDistances s = [0]"
    and "fst x \<noteq> TOMBSTONE" "fst item \<noteq> TOMBSTONE"
  shows "robinhood_insert_loop s item ideal 0 0 =
         (False, s\<lparr> totalProbes := totalProbes s + 500,
                     totalCollisions := totalCollisions s + 250,
                     probeDistances := [250] \<rparr>)"
proof -
  let ?s = "s\<lparr> totalProbes := totalProbes s + 4 * of_nat (125::nat),
                totalCollisions := totalCollisions s + 2 * of_nat (125::nat),
                probeDistances := [0 + 2 * of_nat (125::nat)] \<rparr>"
  have "robinhood_insert_loop s item ideal 0 0 =
        robinhood_insert_loop ?s item ideal (0 + 2 * of_nat (125::nat)) (0 + 4 * 125)"
    using assms by (intro robinhood_cap1_rounds) (simp_all add: MAX_PROBE_DISTANCE_def)
  also have "\<dots> = (False, ?s)"
    by (subst robinhood_insert_loop.simps) (simp add: MAX_PROBE_DISTANCE_def)
  finally show ?thesis by (cases s) simp
qed

lemma searchInternal_Cuckoo_miss:
  assumes "currentMode s = Cuckoo" "capacity s = 1"
    and "\<not> liveMatch (table s ! 0) k" "\<not> liveMatch (table2 s ! 0) k"
  shows "searchInternal H s k = searchStash_loop (stash s) k"
  using assms by (simp add: searchInternal_def tableLookup_Cuckoo searchStash_def)

text \<open>
  Cuckoo mode, capacity 1, any hash function: the third of three inserts of distinct
  keys runs out of evictions with the first key in hand and stashes the third key,
  which the first pass has already written to the primary table.
\<close>

lemma cuckoo_third_insert:
  assumes ab: "a \<noteq> b" and ac: "a \<noteq> c" and bc: "b \<noteq> c"
    and aT: "a \<noteq> TOMBSTONE" and bT: "b \<noteq> TOMBSTONE" and cT: "c \<noteq> TOMBSTONE"
  shows "run H [SetMode Cuckoo, Insert a va, Insert b vb, Insert c vc] (HybridHashTable_new 1) =
     Inr \<lparr> table = [Some (c, vc)], capacity = 1, numElements = 3,
           currentMode = Cuckoo, table2 = [Some (b, vb)], hopInfo = [0],
           probeDistances = [0], stash = [(c, vc)], totalInsertions = 3,
           totalCollisions = 250, totalProbes = 0 \<rparr>"
proof -
  let ?s0 = "\<lparr> table = [None], capacity = 1, numElements = 0,
           currentMode = Cuckoo, table2 = [None], hopInfo = [0],
           probeDistances = [0], stash = [], totalInsertions = 0,
           totalCollisions = 0, totalProbes = 0 \<rparr>"
  let ?s1 = "\<lparr> table = [Some (a, va)], capacity = 1, numElements = 1,
           currentMode = Cuckoo, table2 = [None], hopInfo = [0],
           probeDistances = [0], stash = [], totalInsertions = 1,
           totalCollisions = 0, totalProbes = 0 \<rparr>"
  let ?s2 = "\<lparr> table = [Some (b, vb)], capacity = 1, numElements = 2,
           currentMode = Cuckoo, table2 = [Some (a, va)], hopInfo = [0],
           probeDistances = [0], stash = [], totalInsertions = 2,
           totalCollisions = 0, totalProbes = 0 \<rparr>"
  let ?s3 = "\<lparr> table = [Some (c, vc)], capacity = 1, numElements = 3,
           currentMode = Cuckoo, table2 = [Some (b, vb)], hopInfo = [0],
           probeDistances = [0], stash = [(c, vc)], totalInsertions = 3,
           totalCollisions = 250, totalProbes = 0 \<rparr>"
  have m: "setMode Cuckoo (HybridHashTable_new 1) = ?s0"
    by (simp add: setMode_def HybridHashTable_new_def)
  have i1: "insert_ht H a va ?s0 = Inr (True, ?s1)"
    unfolding insert_ht_def insert_body_def modeInsert_def cuckoo_insert_def
    by (subst cuckoo_insert_loop.simps)
       (simp add: searchInternal_Cuckoo_miss MAX_EVICTIONS_def Let_def)
  have i2: "insert_ht H b vb ?s1 = Inr (True, ?s2)"
    unfolding insert_ht_def insert_body_def modeInsert_def cuckoo_insert_def
    using ab aT
    by (subst cuckoo_insert_loop.simps)
       (simp add: searchInternal_Cuckoo_miss liveMatch_Some available_Some MAX_EVICTIONS_def Let_def)
  have l3: "cuckoo_insert_loop H (?s2\<lparr> totalInsertions := totalInsertions ?s2 + 1 \<rparr>) (c, vc) 0 =
      (False, (?s2\<lparr> totalInsertions := totalInsertions ?s2 + 1 \<rparr>)
          \<lparr> table := [Some (c, vc)], table2 := [Some (b, vb)],
            totalCollisions := totalCollisions (?s2\<lparr> totalInsertions := totalInsertions ?s2 + 1 \<rparr>) + 250 \<rparr>)"
    using aT bT cT by (intro cuckoo_cap1_full [where x = "(b, vb)" and y = "(a, va)"]) simp_all
  have i3: "insert_ht H c vc ?s2 = Inr (True, ?s3)"
    unfolding insert_ht_def insert_body_def modeInsert_def cuckoo_insert_def
    using ac bc
    by (simp add: searchInternal_Cuckoo_miss liveMatch_Some l3 [simplified] insertIntoStash_def
          MAX_STASH_SIZE_def Let_def)
  show ?thesis
    by (simp add: step_def m [simplified] i1 [simplified] i2 [simplified] i3 [simplified])
qed

text \<open>
  Robin Hood mode, capacity 1, any hash function: the second insert probes the only
  slot 500 times and leaves the recorded distance 250 behind.
\<close>

lemma robinhood_second_insert:
  assumes ab: "a \<noteq> b" and aT: "a \<noteq> TOMBSTONE" and bT: "b \<noteq> TOMBSTONE"
  shows "run H [SetMode RobinHood, Insert a va, Insert b vb] (HybridHashTable_new 1) =
     Inr \<lparr> table = [Some (a, va)], capacity = 1, numElements = 2,
           currentMode = RobinHood, table2 = [None], hopInfo = [0],
           probeDistances = [250], stash = [(b, vb)], totalInsertions = 2,
           totalCollisions = 250, totalProbes = 501 \<rparr>"
proof -
  let ?s0 = "\<lparr> table = [None], capacity = 1, numElements = 0,
           currentMode = RobinHood, table2 = [None], hopInfo = [0],
           probeDistances = [0], stash = [], totalInsertions = 0,
           totalCollisions = 0, totalProbes = 0 \<rparr>"
  let ?s1 = "\<lparr> table = [Some (a, va)], capacity = 1, numElements = 1,
           currentMode = RobinHood, table2 = [None], hopInfo = [0],
           probeDistances = [0], stash = [], totalInsertions = 1,
           totalCollisions = 0, totalProbes = 1 \<rparr>"
  let ?s2 = "\<lparr> table = [Some (a, va)], capacity = 1, numElements = 2,
           currentMode = RobinHood, table2 = [None], hopInfo = [0],
           probeDistances = [250], stash = [(b, vb)], totalInsertions = 2,
           totalCollisions = 250, totalProbes = 501 \<rparr>"
  have m: "setMode RobinHood (HybridHashTable_new 1) = ?s0"
    by (simp add: setMode_def HybridHashTable_new_def)
  have i1: "insert_ht H a va ?s0 = Inr (True, ?s1)"
    unfolding insert_ht_def insert_body_def modeInsert_def robinhood_insert_def
    by (subst robinhood_insert_loop.simps)
       (simp add: searchInternal_def tableLookup_RobinHood robinhood_scan_empty_first
          searchStash_def MAX_PROBE_DISTANCE_def Let_def)
  have sc: "robinhood_scan [Some (a, va)] 1 0 b 0 = None"
    using ab by (intro robinhood_scan_no_match) (simp add: liveMatch_Some)
  have l2: "robinhood_insert_loop (?s1\<lparr> totalInsertions := totalInsertions ?s1 + 1 \<rparr>) (b, vb) 0 0 0 =
      (False, (?s1\<lparr> totalInsertions := totalInsertions ?s1 + 1 \<rparr>)
          \<lparr> totalProbes := totalProbes (?s1\<lparr> totalInsertions := totalInsertions ?s1 + 1 \<rparr>) + 500,
            totalCollisions := totalCollisions (?s1\<lparr> totalInsertions := totalInsertions ?s1 + 1 \<rparr>) + 250,
            probeDistances := [250] \<rparr>)"
    using aT bT by (intro robinhood_cap1_full [where x = "(a, va)"]) simp_all
  have i2: "insert_ht H b vb ?s1 = Inr (True, ?s2)"
    unfolding insert_ht_def insert_body_def modeInsert_def robinhood_insert_def
    by (simp add: searchInternal_def tableLookup_RobinHood sc [simplified] searchStash_def
          l2 [simplified] insertIntoStash_def MAX_STASH_SIZE_def Let_def)
  show ?thesis
    by (simp add: step_def m [simplified] i1 [simplified] i2 [simplified])
qed

text \<open>
  C2 fails on the code. Cuckoo mode, capacity 1, the keys \<open>a\<close>, \<open>b\<close>, \<open>c\<close> inserted in
  this order: the third insert returns true and leaves \<open>c\<close> live twice, in the primary
  table and in the stash, while \<open>a\<close>, which was in hand when the evictions ran out, is
  nowhere.
\<close>

theorem uniqueness_violated:
  "run lengthHash [SetMode Cuckoo, Insert ''a'' 1, Insert ''b'' 2, Insert ''c'' 3]
     (HybridHashTable_new 1) =
     Inr \<lparr> table = [Some (''c'', 3)], capacity = 1, numElements = 3,
           currentMode = Cuckoo, table2 = [Some (''b'', 2)], hopInfo = [0],
           probeDistances = [0], stash = [(''c'', 3)], totalInsertions = 3,
           totalCollisions = 250, totalProbes = 0 \<rparr> \<and>
   liveCount \<lparr> table = [Some (''c'', 3)], capacity = 1, numElements = 3,
           currentMode = Cuckoo, table2 = [Some (''b'', 2)], hopInfo = [0],
           probeDistances = [0], stash = [(''c'', 3)], totalInsertions = 3,
           totalCollisions = 250, totalProbes = 0 \<rparr> ''c'' = 2 \<and>
   liveCount \<lparr> table = [Some (''c'', 3)], capacity = 1, numElements = 3,
           currentMode = Cuckoo, table2 = [Some (''b'', 2)], hopInfo = [0],
           probeDistances = [0], stash = [(''c'', 3)], totalInsertions = 3,
           totalCollisions = 250, totalProbes = 0 \<rparr> ''a'' = 0"
  using cuckoo_third_insert [of "''a''" "''b''" "''c''" lengthHash 1 2 3]
  by (simp add: TOMBSTONE_def liveCount_def liveEntries_def liveSlots_def isTombstone_def)

text \<open>
  C6 fails on the code. Robin Hood mode, capacity 1, the keys \<open>a\<close> and \<open>b\<close> inserted in
  this order: the second insert probes the only slot 500 times and leaves the key \<open>a\<close>
  at its ideal index 0 with the recorded distance 250, where its displacement, as
  \<open>getProbeDistance\<close> computes it, is 0.
\<close>

theorem probe_distance_inconsistent:
  "run lengthHash [SetMode RobinHood, Insert ''a'' 1, Insert ''b'' 2] (HybridHashTable_new 1) =
     Inr \<lparr> table = [Some (''a'', 1)], capacity = 1, numElements = 2,
           currentMode = RobinHood, table2 = [None], hopInfo = [0],
           probeDistances = [250], stash = [(''b'', 2)], totalInsertions = 2,
           totalCollisions = 250, totalProbes = 501 \<rparr> \<and>
   getProbeDistance
     \<lparr> table = [Some (''a'', 1)], capacity = 1, numElements = 2,
           currentMode = RobinHood, table2 = [None], hopInfo = [0],
           probeDistances = [250], stash = [(''b'', 2)], totalInsertions = 2,
           totalCollisions = 250, totalProbes = 501 \<rparr>
     (hash lengthHash
        \<lparr> table = [Some (''a'', 1)], capacity = 1, numElements = 2,
           currentMode = RobinHood, table2 = [None], hopInfo = [0],
           probeDistances = [250], stash = [(''b'', 2)], totalInsertions = 2,
           totalCollisions = 250, totalProbes = 501 \<rparr> ''a'') 0 = 0"
  using robinhood_second_insert [of "''a''" "''b''" lengthHash 1 2]
  by (simp add: TOMBSTONE_def getProbeDistance_def)

section \<open>Failed operations\<close>

lemma remove_false_unchanged:
  assumes "remove_ht H k s = Inr (False, s')"
  shows "s' = s"
  using assms
  by (auto simp: remove_ht_def remove_body_def removeFromStash_def Let_def
        split: if_splits HashMode.splits option.splits)

lemma run_append:
  "run H (xs @ ys) s = (case run H xs s of Inl f \<Rightarrow> Inl f | Inr s' \<Rightarrow> run H ys s')"
  by (induction xs arbitrary: s) (auto split: sum.splits)

lemma searchStash_loop_None: "k \<notin> fst ` set xs \<Longrightarrow> searchStash_loop xs k = None"
  by (induction xs) auto

lemma stashKey_inj [simp]: "stashKey i = stashKey j \<longleftrightarrow> i = j"
proof
  assume "stashKey i = stashKey j"
  then have "length (stashKey i) = length (stashKey j)" by simp
  then show "i = j" by (simp add: stashKey_def)
qed simp

lemma stashKey_neq: "CHR ''x'' \<notin> set k \<Longrightarrow> stashKey i \<noteq> k"
  by (auto simp: stashKey_def)

lemma stashKey_not_TOMBSTONE [simp]: "stashKey i \<noteq> TOMBSTONE"
  by (rule stashKey_neq) (simp add: TOMBSTONE_def)

text \<open>
  Cuckoo mode, capacity 1, both slots live, the key in neither of them nor in the
  stash: the eviction loop writes the new pair to the primary table and gives up; the
  pair goes to the stash when there is room, and the insert fails otherwise.
\<close>

lemma cuckoo_cap1_insert:
  assumes c: "capacity s = 1" and m: "currentMode s = Cuckoo"
    and t: "table s = [Some x]" and t2: "table2 s = [Some y]"
    and xT: "fst x \<noteq> TOMBSTONE" and yT: "fst y \<noteq> TOMBSTONE" and kT: "k \<noteq> TOMBSTONE"
    and xk: "fst x \<noteq> k" and yk: "fst y \<noteq> k"
    and st: "searchStash_loop (stash s) k = None"
  shows "insert_ht H k v s =
     Inr (if length (stash s) < MAX_STASH_SIZE
          then (True, s\<lparr> table := [Some (k, v)], table2 := [Some x],
                          stash := stash s @ [(k, v)],
                          numElements := numElements s + 1,
                          totalInsertions := totalInsertions s + 1,
                          totalCollisions := totalCollisions s + 250 \<rparr>)
          else (False, s\<lparr> table := [Some (k, v)], table2 := [Some x],
                           totalInsertions := totalInsertions s + 1,
                           totalCollisions := totalCollisions s + 250 \<rparr>))"
proof -
  let ?s0 = "s\<lparr> totalInsertions := totalInsertions s + 1 \<rparr>"
  let ?s1 = "?s0\<lparr> table := [Some (k, v)], table2 := [Some x],
                   totalCollisions := totalCollisions ?s0 + 250 \<rparr>"
  have si: "searchInternal H s k = None"
    using c m t t2 xk yk st
    by (simp add: searchInternal_def tableLookup_Cuckoo searchStash_def liveMatch_def
          split: option.splits)
  have lp: "cuckoo_insert_loop H ?s0 (k, v) 0 = (False, ?s1)"
    using c t t2 xT yT kT by (intro cuckoo_cap1_full [where x = x and y = y]) simp_all
  have mi: "modeInsert H ?s0 k v = (False, ?s1)"
    using m lp by (simp add: modeInsert_def cuckoo_insert_def)
  have "insert_body H k v s = insertIntoStash ?s1 k v"
    using si mi by (simp add: insert_body_def Let_def)
  then show ?thesis
    using c by (cases s) (simp add: insert_ht_def insertIntoStash_def not_le)
qed

lemma cuckoo_two_inserts:
  assumes ab: "a \<noteq> b" and aT: "a \<noteq> TOMBSTONE"
  shows "run H [SetMode Cuckoo, Insert a va, Insert b vb] (HybridHashTable_new 1) =
     Inr \<lparr> table = [Some (b, vb)], capacity = 1, numElements = 2,
           currentMode = Cuckoo, table2 = [Some (a, va)], hopInfo = [0],
           probeDistances = [0], stash = [], totalInsertions = 2,
           totalCollisions = 0, totalProbes = 0 \<rparr>"
proof -
  let ?s0 = "\<lparr> table = [None], capacity = 1, numElements = 0,
           currentMode = Cuckoo, table2 = [None], hopInfo = [0],
           probeDistances = [0], stash = [], totalInsertions = 0,
           totalCollisions = 0, totalProbes = 0 \<rparr>"
  let ?s1 = "\<lparr> table = [Some (a, va)], capacity = 1, numElements = 1,
           currentMode = Cuckoo, table2 = [None], hopInfo = [0],
           probeDistances = [0], stash = [], totalInsertions = 1,
           totalCollisions = 0, totalProbes = 0 \<rparr>"
  let ?s2 = "\<lparr> table = [Some (b, vb)], capacity = 1, numElements = 2,
           currentMode = Cuckoo, table2 = [Some (a, va)], hopInfo = [0],
           probeDistances = [0], stash = [], totalInsertions = 2,
           totalCollisions = 0, totalProbes = 0 \<rparr>"
  have m: "setMode Cuckoo (HybridHashTable_new 1) = ?s0"
    by (simp add: setMode_def HybridHashTable_new_def)
  have i1: "insert_ht H a va ?s0 = Inr (True, ?s1)"
    unfolding insert_ht_def insert_body_def modeInsert_def cuckoo_insert_def
    by (subst cuckoo_insert_loop.simps)
       (simp add: searchInternal_Cuckoo_miss MAX_EVICTIONS_def Let_def)
  have i2: "insert_ht H b vb ?s1 = Inr (True, ?s2)"
    unfolding insert_ht_def insert_body_def modeInsert_def cuckoo_insert_def
    using ab aT
    by (subst cuckoo_insert_loop.simps)
       (simp add: searchInternal_Cuckoo_miss liveMatch_Some available_Some MAX_EVICTIONS_def Let_def)
  show ?thesis
    by (simp add: step_def m [simplified] i1 [simplified] i2 [simplified])
qed

text \<open>
  The run that fills the stash: after \<open>setMode Cuckoo\<close> on a fresh table of capacity 1
  and the insert of \<open>n\<close> distinct keys, the last two keys sit in the two tables and the
  keys from the third on are in the stash.
\<close>

lemma fillOps_Suc: "fillOps (Suc n) = fillOps n @ [Insert (stashKey n) (int n)]"
  by (simp add: fillOps_def)

lemma filledState_step:
  assumes n: "2 \<le> n" and r: "n - 2 < MAX_STASH_SIZE"
  shows "insert_ht H (stashKey n) (int n) (filledState n) = Inr (True, filledState (Suc n))"
proof -
  let ?s = "filledState n"
  have nk: "stashKey n \<notin> fst ` set (stash ?s)"
    by (auto simp: filledState_def)
  have len: "length (stash ?s) = n - 2" by (simp add: filledState_def)
  have up: "[2..<Suc n] = [2..<n] @ [n]" using n by simp
  have d: "Suc n - 2 = Suc (n - 2)" "n - 1 = Suc (n - 2)" using n by simp_all
  have "insert_ht H (stashKey n) (int n) ?s =
     Inr (True, ?s\<lparr> table := [Some (stashKey n, int n)],
                     table2 := [Some (stashKey (n - 1), int (n - 1))],
                     stash := stash ?s @ [(stashKey n, int n)],
                     numElements := numElements ?s + 1,
                     totalInsertions := totalInsertions ?s + 1,
                     totalCollisions := totalCollisions ?s + 250 \<rparr>)"
    using n r searchStash_loop_None [OF nk] len
    by (subst cuckoo_cap1_insert
          [where x = "(stashKey (n - 1), int (n - 1))" and y = "(stashKey (n - 2), int (n - 2))"])
       (simp_all add: filledState_def)
  also have "?s\<lparr> table := [Some (stashKey n, int n)],
                     table2 := [Some (stashKey (n - 1), int (n - 1))],
                     stash := stash ?s @ [(stashKey n, int n)],
                     numElements := numElements ?s + 1,
                     totalInsertions := totalInsertions ?s + 1,
                     totalCollisions := totalCollisions ?s + 250 \<rparr> = filledState (Suc n)"
    unfolding filledState_def up d by (simp add: algebra_simps)
  finally show ?thesis .
qed

lemma fillOps_reaches:
  assumes "2 \<le> n" and "n \<le> MAX_STASH_SIZE + 2"
  shows "run H (fillOps n) (HybridHashTable_new 1) = Inr (filledState n)"
  using assms
proof (induction n rule: dec_induct)
  case base
  have "fillOps 2 = [SetMode Cuckoo, Insert (stashKey 0) 0, Insert (stashKey 1) 1]"
    by (simp add: fillOps_def upt_rec numeral_2_eq_2)
  moreover have "filledState 2 =
      \<lparr> table = [Some (stashKey 1, 1)], capacity = 1, numElements = 2,
        currentMode = Cuckoo, table2 = [Some (stashKey 0, 0)], hopInfo = [0],
        probeDistances = [0], stash = [], totalInsertions = 2,
        totalCollisions = 0, totalProbes = 0 \<rparr>"
    by (simp add: filledState_def)
  ultimately show ?case
    using cuckoo_two_inserts [of "stashKey 0" "stashKey 1" H 0 1] by simp
next
  case (step n)
  from step.prems have r: "n - 2 < MAX_STASH_SIZE" by (simp add: MAX_STASH_SIZE_def)
  from step.prems have "run H (fillOps n) (HybridHashTable_new 1) = Inr (filledState n)"
    by (intro step.IH) simp
  then show ?case
    using filledState_step [OF step.hyps(1) r, of H]
    by (simp add: fillOps_Suc run_append step_def)
qed

text \<open>
  On the filled table with a full stash, the insert of a further key fails, and has
  written the key to the primary table all the same.
\<close>

lemma full_stash_insert:
  assumes n: "2 \<le> n" and f: "MAX_STASH_SIZE \<le> n - 2"
    and kx: "CHR ''x'' \<notin> set k" and kT: "k \<noteq> TOMBSTONE"
  shows "search H k (filledState n) = Inr None"
    and "insert_ht H k v (filledState n) =
       Inr (False, (filledState n)\<lparr> table := [Some (k, v)],
                      table2 := [Some (stashKey (n - 1), int (n - 1))],
                      totalInsertions := totalInsertions (filledState n) + 1,
                      totalCollisions := totalCollisions (filledState n) + 250 \<rparr>)"
    and "search H k ((filledState n)\<lparr> table := [Some (k, v)],
                      table2 := [Some (stashKey (n - 1), int (n - 1))],
                      totalInsertions := totalInsertions (filledState n) + 1,
                      totalCollisions := totalCollisions (filledState n) + 250 \<rparr>) = Inr (Some v)"
    and "size_ht ((filledState n)\<lparr> table := [Some (k, v)],
                      table2 := [Some (stashKey (n - 1), int (n - 1))],
                      totalInsertions := totalInsertions (filledState n) + 1,
                      totalCollisions := totalCollisions (filledState n) + 250 \<rparr>) =
         size_ht (filledState n)"
proof -
  let ?s = "filledState n"
  have nk: "k \<notin> fst ` set (stash ?s)"
  proof
    assume "k \<in> fst ` set (stash ?s)"
    then obtain i where "k = stashKey i" by (auto simp: filledState_def)
    with stashKey_neq [OF kx, of i] show False by simp
  qed
  have len: "length (stash ?s) = n - 2" by (simp add: filledState_def)
  have ne: "stashKey i \<noteq> k" for i using stashKey_neq [OF kx] .
  have fs: "currentMode ?s = Cuckoo" "capacity ?s = 1"
    "table ?s = [Some (stashKey (n - 1), int (n - 1))]"
    "table2 ?s = [Some (stashKey (n - 2), int (n - 2))]"
    by (simp_all add: filledState_def)
  show "search H k ?s = Inr None"
    using searchStash_loop_None [OF nk] ne fs
    by (simp add: search_def searchInternal_Cuckoo_miss liveMatch_Some)
  show "insert_ht H k v ?s =
       Inr (False, ?s\<lparr> table := [Some (k, v)],
                      table2 := [Some (stashKey (n - 1), int (n - 1))],
                      totalInsertions := totalInsertions ?s + 1,
                      totalCollisions := totalCollisions ?s + 250 \<rparr>)"
    using f kT ne searchStash_loop_None [OF nk] len
    by (subst cuckoo_cap1_insert
          [where x = "(stashKey (n - 1), int (n - 1))" and y = "(stashKey (n - 2), int (n - 2))"])
       (simp_all add: filledState_def)
  show "search H k (?s\<lparr> table := [Some (k, v)],
                      table2 := [Some (stashKey (n - 1), int (n - 1))],
                      totalInsertions := totalInsertions ?s + 1,
                      totalCollisions := totalCollisions ?s + 250 \<rparr>) = Inr (Some v)"
    using kT fs
    by (simp add: search_def searchInternal_def tableLookup_Cuckoo liveMatch_Some)
  show "size_ht (?s\<lparr> table := [Some (k, v)],
                      table2 := [Some (stashKey (n - 1), int (n - 1))],
                      totalInsertions := totalInsertions ?s + 1,
                      totalCollisions := totalCollisions ?s + 250 \<rparr>) = size_ht ?s"
    by (simp add: size_ht_def)
qed

text \<open>
  C3 fails on the code. Cuckoo mode, capacity 1: after the 10000002 inserts of
  \<open>fillOps\<close> the stash holds \<^verbatim>\<open>MAX_STASH_SIZE\<close> entries. The insert of the new key \<^verbatim>\<open>k\<close>
  with the value 7 then returns false, and has written the pair to the primary table:
  the search of \<^verbatim>\<open>k\<close>, empty before the call, returns 7 after it.
\<close>

theorem failed_insert_writes:
  "run lengthHash (fillOps 10000002) (HybridHashTable_new 1) = Inr (filledState 10000002) \<and>
   search lengthHash ''k'' (filledState 10000002) = Inr None \<and>
   insert_ht lengthHash ''k'' 7 (filledState 10000002) =
     Inr (False, (filledState 10000002)\<lparr> table := [Some (''k'', 7)],
                   table2 := [Some (stashKey 10000001, 10000001)],
                   totalInsertions := totalInsertions (filledState 10000002) + 1,
                   totalCollisions := totalCollisions (filledState 10000002) + 250 \<rparr>) \<and>
   search lengthHash ''k''
     ((filledState 10000002)\<lparr> table := [Some (''k'', 7)],
                   table2 := [Some (stashKey 10000001, 10000001)],
                   totalInsertions := totalInsertions (filledState 10000002) + 1,
                   totalCollisions := totalCollisions (filledState 10000002) + 250 \<rparr>) =
     Inr (Some 7)"
proof -
  have n: "(2::nat) \<le> 10000002" and le: "(10000002::nat) \<le> MAX_STASH_SIZE + 2"
    and f: "MAX_STASH_SIZE \<le> 10000002 - 2"
    and kx: "CHR ''x'' \<notin> set ''k''" and kT: "''k'' \<noteq> TOMBSTONE"
    by (simp_all add: MAX_STASH_SIZE_def TOMBSTONE_def)
  have d: "(10000002::nat) - 1 = 10000001" "int 10000001 = 10000001" by simp_all
  note a = fillOps_reaches [OF n le, of lengthHash]
  note b1 = full_stash_insert(1) [OF n f kx kT, where H = lengthHash]
  note b2 = full_stash_insert(2) [OF n f kx kT, where H = lengthHash and v = 7, unfolded d]
  note b3 = full_stash_insert(3) [OF n f kx kT, where H = lengthHash and v = 7, unfolded d]
  from a b1 b2 b3 show ?thesis by blast
qed

section \<open>Insert of a key that is live in the table\<close>

text \<open>
  Robin Hood mode on a full table of capacity 3: the 500 probes of an insert go round
  the table 166 times, the four pairs taking turns in the three slots.
\<close>

lemma robinhood_cap3_loop:
  "robinhood_insert_loop
     \<lparr> table = [Some (''ccc'', 3), Some (''a'', 1), Some (''bb'', 2)], capacity = 3,
       numElements = 3, currentMode = RobinHood, table2 = [None, None, None],
       hopInfo = [0, 0, 0], probeDistances = [0, 0, 0], stash = [],
       totalInsertions = 4, totalCollisions = 0, totalProbes = 3 \<rparr>
     (''dddd'', 4) 1 0 0 =
   (False,
     \<lparr> table = [Some (''dddd'', 4), Some (''bb'', 2), Some (''ccc'', 3)], capacity = 3,
       numElements = 3, currentMode = RobinHood, table2 = [None, None, None],
       hopInfo = [0, 0, 0], probeDistances = [125, 125, 125], stash = [],
       totalInsertions = 4, totalCollisions = 125, totalProbes = 503 \<rparr>)"
  by (simp add: robinhood_insert_loop.simps Let_def available_Some TOMBSTONE_def
        MAX_PROBE_DISTANCE_def)

lemma robinhood_cap3_insert:
  "insert_ht lengthHash ''dddd'' 4
     \<lparr> table = [Some (''ccc'', 3), Some (''a'', 1), Some (''bb'', 2)], capacity = 3,
       numElements = 3, currentMode = RobinHood, table2 = [None, None, None],
       hopInfo = [0, 0, 0], probeDistances = [0, 0, 0], stash = [],
       totalInsertions = 3, totalCollisions = 0, totalProbes = 3 \<rparr> =
   Inr (True,
     \<lparr> table = [Some (''dddd'', 4), Some (''bb'', 2), Some (''ccc'', 3)], capacity = 3,
       numElements = 4, currentMode = RobinHood, table2 = [None, None, None],
       hopInfo = [0, 0, 0], probeDistances = [125, 125, 125], stash = [(''dddd'', 4)],
       totalInsertions = 4, totalCollisions = 125, totalProbes = 503 \<rparr>)"
proof -
  let ?T = "[Some (''ccc'', 3), Some (''a'', 1), Some (''bb'', 2)]"
  have nm: "\<not> liveMatch (?T ! i) ''dddd''" if "i < 3" for i
    using that by (auto simp: less_Suc_eq numeral_3_eq_3 liveMatch_Some)
  have sc: "robinhood_scan ?T 3 1 ''dddd'' 0 = None"
    by (intro robinhood_scan_no_match allI impI nm) simp
  have h: "hash lengthHash s ''dddd'' = 1" if "capacity s = 3" for s
    using that by (simp add: hash_def HashUtils_hash_def lengthHash_def)
  show ?thesis
    unfolding insert_ht_def insert_body_def modeInsert_def robinhood_insert_def
    by (simp add: searchInternal_def tableLookup_RobinHood h sc [simplified] searchStash_def
          robinhood_cap3_loop [simplified] insertIntoStash_def MAX_STASH_SIZE_def Let_def)
qed

text \<open>
  The run that hides a live key: the wrapped insert of \<^verbatim>\<open>dddd\<close> leaves \<^verbatim>\<open>ccc\<close> two
  slots after its ideal index 0, and the backward shift of the remove that follows
  empties slot 0.
\<close>

lemma robinhood_cap3_run:
  "run lengthHash
     [SetMode RobinHood, Insert ''a'' 1, Insert ''bb'' 2, Insert ''ccc'' 3,
      Insert ''dddd'' 4, Remove ''bb'']
     (HybridHashTable_new 3) =
   Inr \<lparr> table = [None, Some (''ccc'', 3), Some (''dddd'', 4)], capacity = 3,
       numElements = 3, currentMode = RobinHood, table2 = [None, None, None],
       hopInfo = [0, 0, 0], probeDistances = [0, 1, 1], stash = [(''dddd'', 4)],
       totalInsertions = 4, totalCollisions = 125, totalProbes = 503 \<rparr>"
proof -
  have m: "setMode RobinHood (HybridHashTable_new 3) =
     \<lparr> table = [None, None, None], capacity = 3,
       numElements = 0, currentMode = RobinHood, table2 = [None, None, None],
       hopInfo = [0, 0, 0], probeDistances = [0, 0, 0], stash = [],
       totalInsertions = 0, totalCollisions = 0, totalProbes = 0 \<rparr>"
    by (simp add: setMode_def HybridHashTable_new_def numeral_3_eq_3)
  have i1: "insert_ht lengthHash ''a'' 1
     \<lparr> table = [None, None, None], capacity = 3,
       numElements = 0, currentMode = RobinHood, table2 = [None, None, None],
       hopInfo = [0, 0, 0], probeDistances = [0, 0, 0], stash = [],
       totalInsertions = 0, totalCollisions = 0, totalProbes = 0 \<rparr> =
   Inr (True,
     \<lparr> table = [None, Some (''a'', 1), None], capacity = 3,
       numElements = 1, currentMode = RobinHood, table2 = [None, None, None],
       hopInfo = [0, 0, 0], probeDistances = [0, 0, 0], stash = [],
       totalInsertions = 1, totalCollisions = 0, totalProbes = 1 \<rparr>)"
    by code_simp
  have i2: "insert_ht lengthHash ''bb'' 2
     \<lparr> table = [None, Some (''a'', 1), None], capacity = 3,
       numElements = 1, currentMode = RobinHood, table2 = [None, None, None],
       hopInfo = [0, 0, 0], probeDistances = [0, 0, 0], stash = [],
       totalInsertions = 1, totalCollisions = 0, totalProbes = 1 \<rparr> =
   Inr (True,
     \<lparr> table = [None, Some (''a'', 1), Some (''bb'', 2)], capacity = 3,
       numElements = 2, currentMode = RobinHood, table2 = [None, None, None],
       hopInfo = [0, 0, 0], probeDistances = [0, 0, 0], stash = [],
       totalInsertions = 2, totalCollisions = 0, totalProbes = 2 \<rparr>)"
    by code_simp
  have i3: "insert_ht lengthHash ''ccc'' 3
     \<lparr> table = [None, Some (''a'', 1), Some (''bb'', 2)], capacity = 3,
       numElements = 2, currentMode = RobinHood, table2 = [None, None, None],
       hopInfo = [0, 0, 0], probeDistances = [0, 0, 0], stash = [],
       totalInsertions = 2, totalCollisions = 0, totalProbes = 2 \<rparr> =
   Inr (True,
     \<lparr> table = [Some (''ccc'', 3), Some (''a'', 1), Some (''bb'', 2)], capacity = 3,
       numElements = 3, currentMode = RobinHood, table2 = [None, None, None],
       hopInfo = [0, 0, 0], probeDistances = [0, 0, 0], stash = [],
       totalInsertions = 3, totalCollisions = 0, totalProbes = 3 \<rparr>)"
    by code_simp
  have r: "remove_ht lengthHash ''bb''
     \<lparr> table = [Some (''dddd'', 4), Some (''bb'', 2), Some (''ccc'', 3)], capacity = 3,
       numElements = 4, currentMode = RobinHood, table2 = [None, None, None],
       hopInfo = [0, 0, 0], probeDistances = [125, 125, 125], stash = [(''dddd'', 4)],
       totalInsertions = 4, totalCollisions = 125, totalProbes = 503 \<rparr> =
   Inr (True,
     \<lparr> table = [None, Some (''ccc'', 3), Some (''dddd'', 4)], capacity = 3,
       numElements = 3, currentMode = RobinHood, table2 = [None, None, None],
       hopInfo = [0, 0, 0], probeDistances = [0, 1, 1], stash = [(''dddd'', 4)],
       totalInsertions = 4, totalCollisions = 125, totalProbes = 503 \<rparr>)"
    by code_simp
  show ?thesis
    by (simp add: step_def m [simplified] i1 [simplified] i2 [simplified] i3 [simplified]
          robinhood_cap3_insert [simplified] r [simplified])
qed

text \<open>
  C4 fails on the code. Robin Hood mode, capacity 3, with the keys \<^verbatim>\<open>a\<close>, \<^verbatim>\<open>bb\<close>, \<^verbatim>\<open>ccc\<close>,
  \<^verbatim>\<open>dddd\<close> inserted and \<^verbatim>\<open>bb\<close> removed: the key \<^verbatim>\<open>ccc\<close> is live in slot 1 of the table,
  its search is empty, and the insert of \<^verbatim>\<open>ccc\<close> with the value 9 returns true and
  leaves the key live twice.
\<close>

theorem insert_true_on_live_key:
  "run lengthHash
     [SetMode RobinHood, Insert ''a'' 1, Insert ''bb'' 2, Insert ''ccc'' 3,
      Insert ''dddd'' 4, Remove ''bb'']
     (HybridHashTable_new 3) =
   Inr \<lparr> table = [None, Some (''ccc'', 3), Some (''dddd'', 4)], capacity = 3,
       numElements = 3, currentMode = RobinHood, table2 = [None, None, None],
       hopInfo = [0, 0, 0], probeDistances = [0, 1, 1], stash = [(''dddd'', 4)],
       totalInsertions = 4, totalCollisions = 125, totalProbes = 503 \<rparr> \<and>
   liveCount
     \<lparr> table = [None, Some (''ccc'', 3), Some (''dddd'', 4)], capacity = 3,
       numElements = 3, currentMode = RobinHood, table2 = [None, None, None],
       hopInfo = [0, 0, 0], probeDistances = [0, 1, 1], stash = [(''dddd'', 4)],
       totalInsertions = 4, totalCollisions = 125, totalProbes = 503 \<rparr> ''ccc'' = 1 \<and>
   search lengthHash ''ccc''
     \<lparr> table = [None, Some (''ccc'', 3), Some (''dddd'', 4)], capacity = 3,
       numElements = 3, currentMode = RobinHood, table2 = [None, None, None],
       hopInfo = [0, 0, 0], probeDistances = [0, 1, 1], stash = [(''dddd'', 4)],
       totalInsertions = 4, totalCollisions = 125, totalProbes = 503 \<rparr> = Inr None \<and>
   insert_ht lengthHash ''ccc'' 9
     \<lparr> table = [None, Some (''ccc'', 3), Some (''dddd'', 4)], capacity = 3,
       numElements = 3, currentMode = RobinHood, table2 = [None, None, None],
       hopInfo = [0, 0, 0], probeDistances = [0, 1, 1], stash = [(''dddd'', 4)],
       totalInsertions = 4, totalCollisions = 125, totalProbes = 503 \<rparr> =
   Inr (True,
     \<lparr> table = [Some (''ccc'', 9), Some (''ccc'', 3), Some (''dddd'', 4)], capacity = 3,
       numElements = 4, currentMode = RobinHood, table2 = [None, None, None],
       hopInfo = [0, 0, 0], probeDistances = [0, 1, 1], stash = [(''dddd'', 4)],
       totalInsertions = 5, totalCollisions = 125, totalProbes = 504 \<rparr>) \<and>
   liveCount
     \<lparr> table = [Some (''ccc'', 9), Some (''ccc'', 3), Some (''dddd'', 4)], capacity = 3,
       numElements = 4, currentMode = RobinHood, table2 = [None, None, None],
       hopInfo = [0, 0, 0], probeDistances = [0, 1, 1], stash = [(''dddd'', 4)],
       totalInsertions = 5, totalCollisions = 125, totalProbes = 504 \<rparr> ''ccc'' = 2"
proof -
  have s: "search lengthHash ''ccc''
     \<lparr> table = [None, Some (''ccc'', 3), Some (''dddd'', 4)], capacity = 3,
       numElements = 3, currentMode = RobinHood, table2 = [None, None, None],
       hopInfo = [0, 0, 0], probeDistances = [0, 1, 1], stash = [(''dddd'', 4)],
       totalInsertions = 4, totalCollisions = 125, totalProbes = 503 \<rparr> = Inr None"
    by code_simp
  have i: "insert_ht lengthHash ''ccc'' 9
     \<lparr> table = [None, Some (''ccc'', 3), Some (''dddd'', 4)], capacity = 3,
       numElements = 3, currentMode = RobinHood, table2 = [None, None, None],
       hopInfo = [0, 0, 0], probeDistances = [0, 1, 1], stash = [(''dddd'', 4)],
       totalInsertions = 4, totalCollisions = 125, totalProbes = 503 \<rparr> =
   Inr (True,
     \<lparr> table = [Some (''ccc'', 9), Some (''ccc'', 3), Some (''dddd'', 4)], capacity = 3,
       numElements = 4, currentMode = RobinHood, table2 = [None, None, None],
       hopInfo = [0, 0, 0], probeDistances = [0, 1, 1], stash = [(''dddd'', 4)],
       totalInsertions = 5, totalCollisions = 125, totalProbes = 504 \<rparr>)"
    by code_simp
  have l1: "liveCount
     \<lparr> table = [None, Some (''ccc'', 3), Some (''dddd'', 4)], capacity = 3,
       numElements = 3, currentMode = RobinHood, table2 = [None, None, None],
       hopInfo = [0, 0, 0], probeDistances = [0, 1, 1], stash = [(''dddd'', 4)],
       totalInsertions = 4, totalCollisions = 125, totalProbes = 503 \<rparr> ''ccc'' = 1"
    by (simp add: liveCount_def liveEntries_def liveSlots_def isTombstone_def TOMBSTONE_def)
  have l2: "liveCount
     \<lparr> table = [Some (''ccc'', 9), Some (''ccc'', 3), Some (''dddd'', 4)], capacity = 3,
       numElements = 4, currentMode = RobinHood, table2 = [None, None, None],
       hopInfo = [0, 0, 0], probeDistances = [0, 1, 1], stash = [(''dddd'', 4)],
       totalInsertions = 5, totalCollisions = 125, totalProbes = 504 \<rparr> ''ccc'' = 2"
    by (simp add: liveCount_def liveEntries_def liveSlots_def isTombstone_def TOMBSTONE_def)
  from robinhood_cap3_run s i l1 l2 show ?thesis by blast
qed

end
